theory Spec2Isabelle
  imports Main "HOL-Library.Char_ord" "HOL-Library.List_Lexorder" "HOL-Library.AList"
    "HOL-Library.Sublist"
begin

section \<open>Strings and file names\<close>

text \<open>
  \<^verbatim>\<open>QString::number(int)\<close>: the decimal digits of the number, with a leading minus
  sign for a negative one. The C++ \<^verbatim>\<open>int\<close> is modelled as an unbounded \<open>int\<close>: frame
  numbers and command-stack indices stay far below \<open>2^31\<close>.
\<close>

fun digits :: "nat \<Rightarrow> string" where
  "digits n = (if n < 10 then [''0123456789'' ! n] else digits (n div 10) @ [''0123456789'' ! (n mod 10)])"

declare digits.simps [simp del]

definition QString_number :: "int \<Rightarrow> string" where
  "QString_number i = (if i < 0 then CHR ''-'' # digits (nat (- i)) else digits (nat i))"

text \<open>
  \<^verbatim>\<open>QString("%1.%2").arg(i).arg(m_extension)\<close>: the name of the cache file of the chunk
  that starts at frame \<open>i\<close>.
\<close>

definition chunkFileName :: "int \<Rightarrow> string \<Rightarrow> string" where
  "chunkFileName i ext = QString_number i @ ''.'' @ ext"

text \<open>
  \<^verbatim>\<open>QDir::absoluteFilePath(fileName)\<close> for a relative file name: the directory's absolute
  path, a slash, the file name.
\<close>

definition absoluteFilePath :: "string \<Rightarrow> string \<Rightarrow> string" where
  "absoluteFilePath dir fileName = dir @ ''/'' @ fileName"

section \<open>The cache directory on disk\<close>

text \<open>
  The file system is the cache: \<^verbatim>\<open>m_cacheDir\<close> holds the live chunk files
  (\<^verbatim>\<open><cache>/<chunk>.<ext>\<close>) and the scratch scene, and \<^verbatim>\<open>m_undoDir\<close>
  (\<^verbatim>\<open><cache>/undo\<close>) holds one subdirectory per archived command-stack index
  (\<^verbatim>\<open><cache>/undo/<stackIndex>/<chunk>.<ext>\<close>). A directory is an association list
  from entry names to contents; it is read through \<open>map_of\<close> and written through
  \<open>AList.update\<close> and \<open>AList.delete\<close>.
\<close>

type_synonym content = string

type_synonym directory = "(string \<times> content) list"

datatype signal =
    PreviewRender int string int
  | ReloadChunks string "int list" string
  | CleanupOldPreviews
  | AbortPreview

text \<open>
  What the render runner cannot decide itself comes from the world, one answer per
  launched subprocess: whether \<^verbatim>\<open>waitForStarted()\<close> succeeded, the
  \<^verbatim>\<open>exitStatus()\<close>, whether \<^verbatim>\<open>abortRendering()\<close> raised \<^verbatim>\<open>m_abortPreview\<close> on the
  controlling thread while the runner waited, and what the subprocess left at its
  output path.
\<close>

datatype exitStatus = NormalExit | CrashExit

record process =
  waitForStarted :: bool
  exitStatus :: exitStatus
  abortRequested :: bool
  written :: "content option"

text \<open>
  \<^verbatim>\<open>m_previewThread\<close> is the future of a \<^verbatim>\<open>doPreviewRender\<close> call that runs on
  another thread. Of a call that has not returned, the model records what determines
  the rest of its run: the answers of the world to its subprocesses, the chunk size,
  the scene file, and where the call stands: before its first statement, with the
  chunk list it was given, or in its loop, with the value of \<^verbatim>\<open>ct\<close> and the queue
  that is left. The iteration of the first chunk of this queue is the one under way;
  what it does, the launch of its subprocess included, is accounted to the manager
  when the call is awaited.
\<close>

datatype position = NotStarted "int list" | InLoop nat "int list"

record runner =
  processes :: "nat \<Rightarrow> process"
  timelinechunks :: int
  sceneList :: string
  position :: position

text \<open>
  The manager: its members, the two directories on disk, and what it has sent out
  (signals, subprocess launches, calls to the ruler). \<open>previewThread\<close> is \<open>None\<close>
  when \<^verbatim>\<open>m_previewThread.isRunning()\<close> is false.
\<close>

record manager =
  m_initialized :: bool
  m_abortPreview :: bool
  m_extension :: string
  m_consumerParams :: "string list"
  m_cacheDir :: string
  m_undoDir :: string
  cacheFiles :: directory
  undoDirs :: "(string \<times> directory) list"
  previewTimerActive :: bool
  previewThread :: "runner option"
  docModified :: bool
  emitted :: "signal list"
  launched :: "string list list"
  previewDisplay :: "(int \<times> int) list"

definition emit :: "signal \<Rightarrow> manager \<Rightarrow> manager" where
  "emit sig s = s\<lparr>emitted := emitted s @ [sig]\<rparr>"

section \<open>Archive pruning\<close>

text \<open>
  \<^verbatim>\<open>QDir::entryList(QDir::Dirs | QDir::NoDotAndDotDot)\<close> on \<^verbatim>\<open>m_undoDir\<close>: the names of
  its subdirectories.
\<close>

definition entryList :: "(string \<times> directory) list \<Rightarrow> string list" where
  "entryList ds = map fst ds"

text \<open>
  \<^verbatim>\<open>tmp.cd(dir)\<close> followed by \<^verbatim>\<open>tmp.removeRecursively()\<close>: the subdirectory and all
  it holds are removed, when it exists.
\<close>

definition removeUndoDir :: "string \<Rightarrow> (string \<times> directory) list \<Rightarrow> (string \<times> directory) list" where
  "removeUndoDir dir ds = (if dir \<in> fst ` set ds then AList.delete dir ds else ds)"

text \<open>
  The loop of \<^verbatim>\<open>doCleanupOldPreviews\<close>:
  \<^verbatim>\<open>while (dirs.count() > 5) { QString dir = dirs.takeFirst(); ... }\<close>.
\<close>

fun cleanupLoop :: "string list \<Rightarrow> (string \<times> directory) list \<Rightarrow> (string \<times> directory) list" where
  "cleanupLoop [] ds = ds"
| "cleanupLoop (dir # dirs) ds =
     (if length (dir # dirs) > 5 then cleanupLoop dirs (removeUndoDir dir ds) else ds)"

text \<open>
  \<^verbatim>\<open>qSort(dirs)\<close> on a \<^verbatim>\<open>QStringList\<close> sorts with \<^verbatim>\<open>QString::operator<\<close>, the
  lexicographic order of the code units: \<open>sort\<close> on \<open>string\<close> with the order of
  \<open>char\<close> by code and of lists by the dictionary.
\<close>

definition doCleanupOldPreviews :: "manager \<Rightarrow> manager" where
  "doCleanupOldPreviews s =
     (let dirs = sort (entryList (undoDirs s))
      in s\<lparr>undoDirs := cleanupLoop dirs (undoDirs s)\<rparr>)"

section \<open>Archiving and restoring chunk files\<close>

text \<open>
  \<^verbatim>\<open>m_undoDir.exists(name)\<close>, \<^verbatim>\<open>m_undoDir.mkdir(name)\<close> (no effect on an existing
  directory) and \<^verbatim>\<open>m_undoDir.rmdir(name)\<close> (removes an empty directory only).
\<close>

definition undoExists :: "string \<Rightarrow> manager \<Rightarrow> bool" where
  "undoExists name s = (map_of (undoDirs s) name \<noteq> None)"

definition mkdirUndo :: "string \<Rightarrow> manager \<Rightarrow> manager" where
  "mkdirUndo name s =
     (if undoExists name s then s else s\<lparr>undoDirs := AList.update name [] (undoDirs s)\<rparr>)"

definition rmdirUndo :: "string \<Rightarrow> manager \<Rightarrow> manager" where
  "rmdirUndo name s =
     (case map_of (undoDirs s) name of
        Some [] \<Rightarrow> s\<lparr>undoDirs := AList.delete name (undoDirs s)\<rparr>
      | _ \<Rightarrow> s)"

text \<open>
  \<^verbatim>\<open>m_cacheDir.rename(current, QString("undo/%1/%2").arg(ix).arg(current))\<close>: the live
  file moves into the archive directory. The call returns false and changes nothing
  when the live file does not exist, when the archive directory does not exist, or
  when the archive directory already has an entry of that name.
\<close>

definition renameToUndo :: "string \<Rightarrow> string \<Rightarrow> manager \<Rightarrow> manager \<times> bool" where
  "renameToUndo current dir s =
     (case map_of (cacheFiles s) current of
        None \<Rightarrow> (s, False)
      | Some c \<Rightarrow>
          (case map_of (undoDirs s) dir of
             None \<Rightarrow> (s, False)
           | Some d \<Rightarrow>
               if map_of d current \<noteq> None then (s, False)
               else (s\<lparr>cacheFiles := AList.delete current (cacheFiles s),
                       undoDirs := AList.update dir (AList.update current c d) (undoDirs s)\<rparr>,
                     True)))"

text \<open>
  \<^verbatim>\<open>QFile::copy(tmpDir.absoluteFilePath(name), m_cacheDir.absoluteFilePath(name))\<close>:
  the archived file is copied into the live cache. \<^verbatim>\<open>QFile::copy\<close> does not
  overwrite: it returns false when the source is missing or the target exists.
\<close>

definition copyFromUndo :: "string \<Rightarrow> string \<Rightarrow> manager \<Rightarrow> manager \<times> bool" where
  "copyFromUndo dir name s =
     (case map_of (undoDirs s) dir of
        None \<Rightarrow> (s, False)
      | Some d \<Rightarrow>
          (case map_of d name of
             None \<Rightarrow> (s, False)
           | Some c \<Rightarrow>
               if map_of (cacheFiles s) name \<noteq> None then (s, False)
               else (s\<lparr>cacheFiles := AList.update name c (cacheFiles s)\<rparr>, True)))"

text \<open>\<^verbatim>\<open>m_cacheDir.remove(fileName)\<close>.\<close>

definition removeCacheFile :: "string \<Rightarrow> manager \<Rightarrow> manager" where
  "removeCacheFile name s = s\<lparr>cacheFiles := AList.delete name (cacheFiles s)\<rparr>"

text \<open>
  The loop that archives, written twice in \<^verbatim>\<open>invalidatePreviews\<close> (for index
  \<^verbatim>\<open>stackIx - 1\<close> and for index \<^verbatim>\<open>stackMax\<close>):
  \<^verbatim>\<open>foreach(int i, chunks) { if (m_cacheDir.rename(...)) foundPreviews = true; }\<close>.
\<close>

fun archiveLoop :: "string \<Rightarrow> int list \<Rightarrow> manager \<Rightarrow> bool \<Rightarrow> manager \<times> bool" where
  "archiveLoop dir [] s foundPreviews = (s, foundPreviews)"
| "archiveLoop dir (i # chunks) s foundPreviews =
     (let current = chunkFileName i (m_extension s);
          (s', ok) = renameToUndo current dir s
      in archiveLoop dir chunks s' (foundPreviews \<or> ok))"

text \<open>
  The archive operation: \<^verbatim>\<open>mkdir\<close>, the loop, and \<^verbatim>\<open>rmdir\<close> when no file was
  moved. It returns \<^verbatim>\<open>foundPreviews\<close> with the state.
\<close>

definition archive :: "int list \<Rightarrow> int \<Rightarrow> manager \<Rightarrow> manager \<times> bool" where
  "archive chunks ix s =
     (let dir = QString_number ix;
          (s', foundPreviews) = archiveLoop dir chunks (mkdirUndo dir s) False
      in if \<not> foundPreviews then (rmdirUndo dir s', False) else (s', True))"

text \<open>
  The loop that restores (lines 158 to 168): the live file is removed unless this is
  the last-undo case, and the archived file is copied back when \<^verbatim>\<open>tmpDir.cd\<close>
  succeeded (\<^verbatim>\<open>moveFile\<close>).
\<close>

fun restoreLoop :: "bool \<Rightarrow> bool \<Rightarrow> string \<Rightarrow> int list \<Rightarrow> manager \<Rightarrow> int list \<Rightarrow> manager \<times> int list" where
  "restoreLoop lastUndo moveFile dir [] s foundChunks = (s, foundChunks)"
| "restoreLoop lastUndo moveFile dir (i # chunks) s foundChunks =
     (let cacheFileName = chunkFileName i (m_extension s);
          s1 = (if \<not> lastUndo then removeCacheFile cacheFileName s else s)
      in if moveFile then
           (let (s2, ok) = copyFromUndo dir cacheFileName s1
            in restoreLoop lastUndo moveFile dir chunks s2 (if ok then foundChunks @ [i] else foundChunks))
         else restoreLoop lastUndo moveFile dir chunks s1 foundChunks)"

definition restore :: "bool \<Rightarrow> int list \<Rightarrow> int \<Rightarrow> manager \<Rightarrow> manager \<times> int list" where
  "restore lastUndo chunks stackIx s =
     (let dir = QString_number stackIx;
          moveFile = undoExists dir s
      in restoreLoop lastUndo moveFile dir chunks s [])"

section \<open>The progress value\<close>

text \<open>
  \<^verbatim>\<open>progress = (double) (ct) / (ct + chunks.count()) * 1000;\<close> is IEEE binary64
  arithmetic: the quotient is rounded to the nearest double, the product by 1000 is
  rounded again, and the conversion to \<^verbatim>\<open>int\<close> truncates. A positive double below
  \<open>2^53\<close> is written \<open>(m, e)\<close> for the value \<open>m / 2^e\<close> with a mantissa \<open>m\<close> of
  53 bits. \<open>bits n\<close> is the length of \<open>n\<close> in binary.
\<close>

function bits :: "int \<Rightarrow> nat" where
  "bits n = (if n \<le> 0 then 0 else Suc (bits (n div 2)))"
  by pat_completeness auto
termination
  by (relation "measure nat") auto

declare bits.simps [simp del]

text \<open>Rounding \<open>a / b\<close> to the nearest integer, ties to even.\<close>

definition roundHalfEven :: "int \<Rightarrow> int \<Rightarrow> int" where
  "roundHalfEven a b =
     (let q = a div b; r = a mod b
      in if 2 * r < b then q
         else if b < 2 * r then q + 1
         else if even q then q else q + 1)"

text \<open>
  The double nearest to \<open>a / b\<close>, for \<open>0 < a / b < 2^53\<close>: the exponent \<open>e\<close> is the
  least with \<open>2^52 \<le> a * 2^e / b\<close>, and the mantissa is \<open>a * 2^e / b\<close> rounded.
\<close>

definition toDouble :: "int \<Rightarrow> int \<Rightarrow> int \<times> nat" where
  "toDouble a b =
     (let c = 2 ^ 52 * b;
          t = bits c - bits a;
          e = (if c \<le> a * 2 ^ t then t else t + 1)
      in (roundHalfEven (a * 2 ^ e) b, e))"

definition progressOf :: "nat \<Rightarrow> nat \<Rightarrow> int" where
  "progressOf ct remaining =
     (let (m, e) = toDouble (int ct) (int ct + int remaining);
          (m', e') = toDouble (m * 1000) (2 ^ e)
      in m' div 2 ^ e')"

section \<open>The render runner\<close>

text \<open>The argument list of the transcode subprocess for the chunk at frame \<open>i\<close>.\<close>

definition renderArgs :: "int \<Rightarrow> string \<Rightarrow> int \<Rightarrow> manager \<Rightarrow> string list" where
  "renderArgs chunkSize scene i s =
     [scene,
      ''in='' @ QString_number i,
      ''out='' @ QString_number (i + chunkSize - 1),
      ''-consumer'',
      ''avformat:'' @ absoluteFilePath (m_cacheDir s) (chunkFileName i (m_extension s))]
     @ m_consumerParams s"

text \<open>
  The loop of \<^verbatim>\<open>doPreviewRender\<close>. \<open>world k\<close> answers for the subprocess launched
  when the counter \<^verbatim>\<open>ct\<close> is \<open>k\<close>. The loop returns the state and the final value
  of \<^verbatim>\<open>ct\<close>, the number of chunks taken from the queue. \<open>scene\<close> is the name of
  the scene file inside the cache directory.
\<close>

fun renderLoop :: "(nat \<Rightarrow> process) \<Rightarrow> int \<Rightarrow> string \<Rightarrow> nat \<Rightarrow> int list \<Rightarrow> manager \<Rightarrow> manager \<times> nat" where
  "renderLoop world chunkSize scene ct0 [] s = (s, ct0)"
| "renderLoop world chunkSize scene ct0 (i # chunks) s =
     (let ct = ct0 + 1;
          fileName = chunkFileName i (m_extension s);
          progress = (if chunks = [] then 1000 else progressOf ct (length chunks))
      in if map_of (cacheFiles s) fileName \<noteq> None then
           renderLoop world chunkSize scene ct chunks
             (emit (PreviewRender i (absoluteFilePath (m_cacheDir s) fileName) progress) s)
         else
           (let args = renderArgs chunkSize (absoluteFilePath (m_cacheDir s) scene) i s;
                s1 = s\<lparr>launched := launched s @ [args]\<rparr>;
                p = world ct
            in if waitForStarted p then
                 (let s2 = s1\<lparr>cacheFiles :=
                                (case written p of
                                   None \<Rightarrow> cacheFiles s1
                                 | Some c \<Rightarrow> AList.update fileName c (cacheFiles s1)),
                              m_abortPreview := (m_abortPreview s1 \<or> abortRequested p)\<rparr>
                  in if exitStatus p \<noteq> NormalExit then
                       (let s3 = (if m_abortPreview s2 then emit (PreviewRender 0 [] 1000) s2
                                  else emit (PreviewRender i [] (- 1)) s2)
                        in (removeCacheFile fileName s3, ct))
                     else
                       renderLoop world chunkSize scene ct chunks
                         (emit (PreviewRender i (absoluteFilePath (m_cacheDir s) fileName) progress) s2))
               else renderLoop world chunkSize scene ct chunks s1))"

text \<open>
  \<^verbatim>\<open>doPreviewRender(scene, chunks)\<close>: the event that initialises the progress bar,
  \<^verbatim>\<open>qSort(chunks)\<close>, the loop, the removal of the scene file and the reset of the
  abort flag. \<open>chunkSize\<close> is \<^verbatim>\<open>KdenliveSettings::timelinechunks()\<close>.
\<close>

definition renderFinish :: "string \<Rightarrow> manager \<Rightarrow> manager" where
  "renderFinish scene s = (removeCacheFile scene s)\<lparr>m_abortPreview := False\<rparr>"

definition doPreviewRender :: "(nat \<Rightarrow> process) \<Rightarrow> int \<Rightarrow> string \<Rightarrow> int list \<Rightarrow> manager \<Rightarrow> manager" where
  "doPreviewRender world chunkSize scene chunks s =
     renderFinish scene
       (fst (renderLoop world chunkSize scene 0 (sort chunks) (emit (PreviewRender 0 [] 0) s)))"

section \<open>The invalidation protocol\<close>

text \<open>
  \<^verbatim>\<open>m_previewThread.waitForFinished()\<close>: the caller is blocked until the running
  \<^verbatim>\<open>doPreviewRender\<close> call has returned, so the rest of that call happens first: the
  whole call when it had not begun, or the rest of its loop from the iteration under
  way, and then the removal of the scene file and the reset of the abort flag.
\<close>

definition waitForFinished :: "runner \<Rightarrow> manager \<Rightarrow> manager" where
  "waitForFinished r s =
     (case position r of
        NotStarted chunks \<Rightarrow>
          doPreviewRender (processes r) (timelinechunks r) (sceneList r) chunks s
      | InLoop ct chunks \<Rightarrow>
          renderFinish (sceneList r)
            (fst (renderLoop (processes r) (timelinechunks r) (sceneList r) ct chunks s)))"

text \<open>
  \<^verbatim>\<open>abortRendering\<close>: nothing when no runner is active; otherwise the abort flag is
  raised, \<^verbatim>\<open>abortPreview\<close> is emitted (it kills the subprocess that is alive at that
  moment; how the subprocesses of the runner end is the world's answer) and the call
  waits until the runner has returned. It returns in the state the runner left.
\<close>

definition abortRendering :: "manager \<Rightarrow> manager" where
  "abortRendering s =
     (case previewThread s of
        None \<Rightarrow> s
      | Some r \<Rightarrow>
          (waitForFinished r (emit AbortPreview (s\<lparr>m_abortPreview := True\<rparr>)))\<lparr>previewThread := None\<rparr>)"

text \<open>
  \<^verbatim>\<open>invalidatePreviews(chunks)\<close>. The command stack belongs to the document:
  \<open>stackIx\<close> is \<^verbatim>\<open>m_doc->commandStack()->index()\<close> and \<open>stackMax\<close> is
  \<^verbatim>\<open>m_doc->commandStack()->count()\<close>. The signal \<^verbatim>\<open>cleanupOldPreviews\<close> is connected
  to \<^verbatim>\<open>doCleanupOldPreviews\<close> on the same object, so emitting it runs the pruning.
\<close>

definition invalidatePreviews :: "int \<Rightarrow> int \<Rightarrow> int list \<Rightarrow> manager \<Rightarrow> manager" where
  "invalidatePreviews stackIx stackMax chunks s0 =
     (let timer = previewTimerActive s0;
          s1 = (if timer then s0\<lparr>previewTimerActive := False\<rparr> else s0);
          s2 = abortRendering s1;
          s3 =
            (if stackIx = stackMax \<and> \<not> undoExists (QString_number (stackIx - 1)) s2 then
               (let (s', foundPreviews) = archive chunks (stackIx - 1) s2
                in if \<not> foundPreviews then s'
                   else doCleanupOldPreviews (emit CleanupOldPreviews s'))
             else
               (let (s', lastUndo) =
                      (if stackIx = stackMax - 1 \<and> \<not> undoExists (QString_number stackMax) s2
                       then (fst (archive chunks stackMax s2), True)
                       else (s2, False));
                    (s'', foundChunks) = restore lastUndo chunks stackIx s'
                in emit (ReloadChunks (m_cacheDir s'') (sort foundChunks) (m_extension s'')) s''));
          s4 = s3\<lparr>docModified := True\<rparr>
      in if timer then s4\<lparr>previewTimerActive := True\<rparr> else s4)"

section \<open>Dirty-chunk notification\<close>

text \<open>
  \<^verbatim>\<open>slotProcessDirtyChunks\<close>. The dirty list is what \<^verbatim>\<open>m_ruler->getDirtyChunks()\<close>
  returned; \<^verbatim>\<open>m_ruler->updatePreviewDisplay(first, last)\<close> is recorded in
  \<open>previewDisplay\<close>. \<^verbatim>\<open>QList::first()\<close> and \<^verbatim>\<open>QList::last()\<close> require a list that
  is not empty (they assert it); on an empty list the access has no defined result,
  which the model reports as an error. It happens after \<^verbatim>\<open>invalidatePreviews\<close> has
  run.
\<close>

datatype error = EmptyListAccess

definition slotProcessDirtyChunks :: "int list \<Rightarrow> int \<Rightarrow> int \<Rightarrow> bool \<Rightarrow> manager \<Rightarrow> error + manager" where
  "slotProcessDirtyChunks chunks stackIx stackMax autopreview s =
     (let s1 = invalidatePreviews stackIx stackMax chunks s
      in case chunks of
           [] \<Rightarrow> Inl EmptyListAccess
         | first # _ \<Rightarrow>
             (let s2 = s1\<lparr>previewDisplay := previewDisplay s1 @ [(first, last chunks)]\<rparr>
              in Inr (if autopreview then s2\<lparr>previewTimerActive := True\<rparr> else s2)))"

section \<open>Construction, initialisation and teardown\<close>

text \<open>
  The constructor: \<^verbatim>\<open>m_initialized(false), m_abortPreview(false)\<close>; the two \<^verbatim>\<open>QDir\<close>
  members are default-constructed, and the path of a default \<^verbatim>\<open>QDir\<close> is
  \<^verbatim>\<open>"."\<close>, the current directory.
\<close>

definition PreviewManager :: manager where
  "PreviewManager =
     \<lparr>m_initialized = False, m_abortPreview = False, m_extension = [], m_consumerParams = [],
      m_cacheDir = ''.'', m_undoDir = ''.'', cacheFiles = [], undoDirs = [],
      previewTimerActive = False, previewThread = None, docModified = False,
      emitted = [], launched = [], previewDisplay = []\<rparr>"

text \<open>
  The document is its property table (\<^verbatim>\<open>getDocumentProperty\<close> gives the empty string
  for a property that is not set). The answers of the platform are collected in a
  record: \<^verbatim>\<open>QString::toLong\<close> (0 when the string is not a number),
  \<^verbatim>\<open>QFile::exists(cacheDir)\<close>, \<^verbatim>\<open>QStandardPaths::writableLocation\<close>, whether
  \<^verbatim>\<open>m_cacheDir.cd(documentId)\<close> succeeds after the \<^verbatim>\<open>mkdir\<close>,
  \<^verbatim>\<open>QDir::dirName()\<close> of the directory at a path (Qt drops a trailing separator of
  the path and gives the text after the last separator that is left), whether
  \<^verbatim>\<open>undo\<close> exists, whether \<^verbatim>\<open>mkdir("undo")\<close> succeeds, and what
  \<^verbatim>\<open>m_doc->selectPreviewProfile()\<close> does to the property table.
\<close>

record environment =
  toLong :: "string \<Rightarrow> int"
  QFile_exists :: "string \<Rightarrow> bool"
  writableLocation :: string
  cd_documentId :: bool
  dirName :: "string \<Rightarrow> string"
  exists_undo :: bool
  mkdir_undo :: bool
  selectPreviewProfile :: "(string \<Rightarrow> string) \<Rightarrow> (string \<Rightarrow> string)"

text \<open>\<^verbatim>\<open>QString::split(sep)\<close>: the parts between the separators, empty parts kept.\<close>

fun QString_split :: "char \<Rightarrow> string \<Rightarrow> string list" where
  "QString_split sep [] = [[]]"
| "QString_split sep (c # cs) =
     (if c = sep then [] # QString_split sep cs
      else (case QString_split sep cs of
              [] \<Rightarrow> [[c]]
            | w # ws \<Rightarrow> (c # w) # ws))"

definition loadParams :: "environment \<Rightarrow> (string \<Rightarrow> string) \<Rightarrow> manager \<Rightarrow> bool \<times> (string \<Rightarrow> string) \<times> manager" where
  "loadParams env doc s =
     (let extension = doc ''previewextension'';
          consumerParams = QString_split CHR '' '' (doc ''previewparameters'');
          doc' = (if consumerParams = [] \<or> extension = [] then selectPreviewProfile env doc else doc);
          consumerParams' = QString_split CHR '' '' (doc' ''previewparameters'');
          extension' = doc' ''previewextension'';
          s' = s\<lparr>m_extension := extension', m_consumerParams := consumerParams'\<rparr>
      in if consumerParams' = [] \<or> extension' = [] then (False, doc', s')
         else (True, doc', s'\<lparr>m_consumerParams := consumerParams' @ [''an=1'']\<rparr>))"

text \<open>
  \<^verbatim>\<open>initialize()\<close> returns its boolean result, the property table and the manager.
  Line 52 sets \<^verbatim>\<open>m_initialized = true\<close> before any check; line 81 sets it again.
\<close>

definition initialize :: "environment \<Rightarrow> (string \<Rightarrow> string) \<Rightarrow> manager \<Rightarrow> bool \<times> (string \<Rightarrow> string) \<times> manager" where
  "initialize env doc s0 =
     (let documentId = doc ''documentid'';
          s1 = s0\<lparr>m_initialized := True\<rparr>
      in if documentId = [] \<or> toLong env documentId = 0 then (False, doc, s1)
         else
           (let cacheDir = doc ''cachedir'';
                given = (cacheDir \<noteq> [] \<and> QFile_exists env cacheDir);
                s2 = (if given then s1\<lparr>m_cacheDir := cacheDir\<rparr>
                      else s1\<lparr>m_cacheDir := writableLocation env\<rparr>)
            in if \<not> given \<and> \<not> cd_documentId env then (False, doc, s2)
               else
                 (let s3 = (if given then s2
                            else s2\<lparr>m_cacheDir := absoluteFilePath (writableLocation env) documentId\<rparr>)
                  in if dirName env (m_cacheDir s3) \<noteq> documentId
                        \<or> (\<not> exists_undo env \<and> \<not> mkdir_undo env)
                     then (False, doc, s3)
                     else
                       (case loadParams env doc s3 of
                          (False, doc', s4) \<Rightarrow> (False, doc', s4)
                        | (True, doc', s4) \<Rightarrow>
                            (True, doc'(''cachedir'' := m_cacheDir s4),
                             s4\<lparr>m_undoDir := absoluteFilePath (m_cacheDir s4) ''undo'',
                                m_initialized := True\<rparr>)))))"

text \<open>
  The destructor, as the list of what it does to the world: under the guard
  \<^verbatim>\<open>if (m_initialized)\<close> it aborts a running render, removes the tree at
  \<^verbatim>\<open>m_undoDir\<close>, and removes the tree at \<^verbatim>\<open>m_cacheDir\<close> when the entry list of the
  cache directory is empty (\<open>cacheEmpty\<close>).
\<close>

datatype teardown = RenderAbort | RemoveRecursively string

definition destructor :: "bool \<Rightarrow> manager \<Rightarrow> teardown list" where
  "destructor cacheEmpty s =
     (if m_initialized s then
        (if previewThread s \<noteq> None then [RenderAbort] else [])
        @ [RemoveRecursively (m_undoDir s)]
        @ (if cacheEmpty then [RemoveRecursively (m_cacheDir s)] else [])
      else [])"

section \<open>Names for intermediate states\<close>

text \<open>
  The state in which \<^verbatim>\<open>invalidatePreviews\<close> starts its case distinction: the timer
  is stopped and \<^verbatim>\<open>abortRendering()\<close> has returned.
\<close>

definition beforeInvalidation :: "manager \<Rightarrow> manager" where
  "beforeInvalidation s =
     abortRendering (if previewTimerActive s then s\<lparr>previewTimerActive := False\<rparr> else s)"


text \<open>
  For the render loop: the absolute path of a chunk file, the progress value of an
  iteration, the state after a subprocess has run (its launch is logged, what it
  wrote is on disk, an abort request has raised the flag), and the chunk an event
  speaks of.
\<close>

definition chunkPath :: "manager \<Rightarrow> int \<Rightarrow> string" where
  "chunkPath s i = absoluteFilePath (m_cacheDir s) (chunkFileName i (m_extension s))"

definition progressAt :: "nat \<Rightarrow> int list \<Rightarrow> int" where
  "progressAt ct chunks = (if chunks = [] then 1000 else progressOf ct (length chunks))"

definition afterProcess :: "process \<Rightarrow> string list \<Rightarrow> string \<Rightarrow> manager \<Rightarrow> manager" where
  "afterProcess p args fileName s =
     s\<lparr>launched := launched s @ [args],
       cacheFiles := (case written p of None \<Rightarrow> cacheFiles s
                      | Some c \<Rightarrow> AList.update fileName c (cacheFiles s)),
       m_abortPreview := (m_abortPreview s \<or> abortRequested p)\<rparr>"

text \<open>
  For a whole batch: the number of chunks it takes from its queue (the final value of
  \<^verbatim>\<open>ct\<close>), the last chunk it takes, and the state in which the iteration of that
  chunk begins, as to the cache and the abort flag: the state that the runner leaves
  when its queue ends just before that chunk.
\<close>

definition taken :: "(nat \<Rightarrow> process) \<Rightarrow> int \<Rightarrow> string \<Rightarrow> int list \<Rightarrow> manager \<Rightarrow> nat" where
  "taken world chunkSize scene chunks s =
     snd (renderLoop world chunkSize scene 0 (sort chunks) (emit (PreviewRender 0 [] 0) s))"

definition lastTaken :: "(nat \<Rightarrow> process) \<Rightarrow> int \<Rightarrow> string \<Rightarrow> int list \<Rightarrow> manager \<Rightarrow> int" where
  "lastTaken world chunkSize scene chunks s =
     sort chunks ! (taken world chunkSize scene chunks s - 1)"

definition atLast :: "(nat \<Rightarrow> process) \<Rightarrow> int \<Rightarrow> string \<Rightarrow> int list \<Rightarrow> manager \<Rightarrow> manager" where
  "atLast world chunkSize scene chunks s =
     fst (renderLoop world chunkSize scene 0
            (take (taken world chunkSize scene chunks s - 1) (sort chunks))
            (emit (PreviewRender 0 [] 0) s))"

fun eventChunk :: "signal \<Rightarrow> int" where
  "eventChunk (PreviewRender i path progress) = i"
| "eventChunk _ = 0"

section \<open>Scenarios\<close>

text \<open>Concrete managers, worlds and documents on which the theorems below are run.\<close>

definition demoManager :: manager where
  "demoManager =
     PreviewManager\<lparr>m_initialized := True, m_extension := ''mp4'',
       m_consumerParams := [''an=1''], m_cacheDir := ''/cache/17'',
       m_undoDir := ''/cache/17/undo''\<rparr>"

definition liveCache :: manager where
  "liveCache = demoManager\<lparr>cacheFiles := [(''0.mp4'', ''a''), (''25.mp4'', ''b'')]\<rparr>"

definition undoScenario :: manager where
  "undoScenario =
     demoManager\<lparr>cacheFiles := [(''0.mp4'', ''new0''), (''25.mp4'', ''new25'')],
       undoDirs := [(''3'', [(''0.mp4'', ''old0'')])]\<rparr>"

definition sixArchives :: manager where
  "sixArchives =
     demoManager\<lparr>undoDirs := map (\<lambda>i. (QString_number i, [(''0.mp4'', ''v'')])) [5, 6, 7, 8, 9, 10]\<rparr>"

definition fiveArchives :: manager where
  "fiveArchives =
     demoManager\<lparr>cacheFiles := [(''0.mp4'', ''live'')],
       undoDirs := map (\<lambda>i. (QString_number i, [(''0.mp4'', ''v'')])) [5, 6, 7, 8, 9]\<rparr>"

definition staleArchives :: manager where
  "staleArchives =
     demoManager\<lparr>undoDirs := map (\<lambda>i. (QString_number i, [(''0.mp4'', ''v'')])) [2, 3, 4, 5, 6, 7]\<rparr>"

definition firstRendered :: manager where
  "firstRendered = demoManager\<lparr>cacheFiles := [(''0.mp4'', ''video'')]\<rparr>"

definition rendered :: process where
  "rendered = \<lparr>waitForStarted = True, exitStatus = NormalExit, abortRequested = False,
                written = Some ''video''\<rparr>"

definition crashed :: process where
  "crashed = \<lparr>waitForStarted = True, exitStatus = CrashExit, abortRequested = False,
               written = Some ''partial''\<rparr>"

definition killed :: process where
  "killed = \<lparr>waitForStarted = True, exitStatus = CrashExit, abortRequested = True,
              written = Some ''partial''\<rparr>"

definition allRendered :: "nat \<Rightarrow> process" where
  "allRendered k = rendered"

definition secondCrashes :: "nat \<Rightarrow> process" where
  "secondCrashes k = (if k = 2 then crashed else rendered)"

definition secondKilled :: "nat \<Rightarrow> process" where
  "secondKilled k = (if k = 2 then killed else rendered)"



definition blankDocument :: "string \<Rightarrow> string" where
  "blankDocument name = []"

definition bareEnvironment :: environment where
  "bareEnvironment =
     \<lparr>toLong = (\<lambda>str. 0), QFile_exists = (\<lambda>path. False), writableLocation = ''/home/user/.cache/kdenlive'',
      cd_documentId = True,
      dirName = (\<lambda>path. rev (takeWhile (\<lambda>c. c \<noteq> CHR ''/'')
                   (rev (if 1 < length path \<and> last path = CHR ''/'' then butlast path else path)))),
      exists_undo = False, mkdir_undo = True,
      selectPreviewProfile = (\<lambda>doc. doc)\<rparr>"

section \<open>File names of distinct chunks are distinct\<close>

lemma digit_char_inj:
  assumes "a < 10" "b < 10" "''0123456789'' ! a = ''0123456789'' ! b"
  shows "a = b"
proof -
  have A: "a \<in> {0,1,2,3,4,5,6,7,8,9}" using assms(1) by auto
  have B: "b \<in> {0,1,2,3,4,5,6,7,8,9}" using assms(2) by auto
  from A B assms(3) show ?thesis by auto
qed

lemma digit_char_not_minus:
  assumes "a < 10" shows "''0123456789'' ! a \<noteq> CHR ''-''"
proof -
  have A: "a \<in> {0,1,2,3,4,5,6,7,8,9}" using assms(1) by auto
  then show ?thesis by auto
qed

lemma digits_nonempty: "digits n \<noteq> []"
  by (subst digits.simps) simp

lemma digits_no_minus: "CHR ''-'' \<notin> set (digits n)"
proof (induction n rule: digits.induct)
  case (1 n)
  show ?case
  proof (cases "n < 10")
    case True
    then show ?thesis using digit_char_not_minus[of n] by (subst digits.simps) auto
  next
    case False
    then have "CHR ''-'' \<notin> set (digits (n div 10))" using 1 by simp
    moreover have "''0123456789'' ! (n mod 10) \<noteq> CHR ''-''"
      by (rule digit_char_not_minus) simp
    ultimately show ?thesis using False by (subst digits.simps) auto
  qed
qed

lemma digits_inj: "digits n = digits m \<Longrightarrow> n = m"
proof (induction n arbitrary: m rule: digits.induct)
  case (1 n)
  show ?case
  proof (cases "n < 10")
    case n: True
    show ?thesis
    proof (cases "m < 10")
      case True
      with n 1(2) show ?thesis
        by (simp add: digits.simps[of n] digits.simps[of m] digit_char_inj)
    next
      case False
      with n 1(2) digits_nonempty[of "m div 10"] show ?thesis
        by (simp add: digits.simps[of n] digits.simps[of m])
    qed
  next
    case n: False
    show ?thesis
    proof (cases "m < 10")
      case True
      with n 1(2) digits_nonempty[of "n div 10"] show ?thesis
        by (simp add: digits.simps[of n] digits.simps[of m])
    next
      case False
      with n 1(2) have e1: "digits (n div 10) = digits (m div 10)"
        and e2: "''0123456789'' ! (n mod 10) = ''0123456789'' ! (m mod 10)"
        by (simp_all add: digits.simps[of n] digits.simps[of m])
      from 1(1)[OF n e1] have d: "n div 10 = m div 10" .
      have "n mod 10 = m mod 10"
        by (rule digit_char_inj[OF _ _ e2]) simp_all
      with d show ?thesis by (metis div_mult_mod_eq)
    qed
  qed
qed

lemma QString_number_inj: "QString_number i = QString_number j \<Longrightarrow> i = j"
proof -
  assume eq: "QString_number i = QString_number j"
  have hd_digits: "\<And>n. hd (digits n) \<noteq> CHR ''-''"
    using digits_no_minus digits_nonempty by (metis hd_in_set)
  show "i = j"
  proof (cases "i < 0")
    case i: True
    show ?thesis
    proof (cases "j < 0")
      case True
      with i eq have "digits (nat (- i)) = digits (nat (- j))" by (simp add: QString_number_def)
      then have "nat (- i) = nat (- j)" by (rule digits_inj)
      with i True show ?thesis by simp
    next
      case False
      with i eq have "CHR ''-'' # digits (nat (- i)) = digits (nat j)" by (simp add: QString_number_def)
      then have "hd (digits (nat j)) = CHR ''-''" by (metis list.sel(1))
      with hd_digits show ?thesis by blast
    qed
  next
    case i: False
    show ?thesis
    proof (cases "j < 0")
      case True
      with i eq have "digits (nat i) = CHR ''-'' # digits (nat (- j))" by (simp add: QString_number_def)
      then have "hd (digits (nat i)) = CHR ''-''" by (metis list.sel(1))
      with hd_digits show ?thesis by blast
    next
      case False
      with i eq have "digits (nat i) = digits (nat j)" by (simp add: QString_number_def)
      then have "nat i = nat j" by (rule digits_inj)
      with i False show ?thesis by simp
    qed
  qed
qed

lemma chunkFileName_inj [simp]: "chunkFileName i ext = chunkFileName j ext \<longleftrightarrow> i = j"
  by (auto simp: chunkFileName_def dest: QString_number_inj)

text \<open>
  No chunk file has the name of the scene file that \<^verbatim>\<open>startPreviewRender\<close> passes to
  the runner, \<^verbatim>\<open>preview.mlt\<close>.
\<close>

lemma digits_chars: "set (digits n) \<subseteq> set ''0123456789''"
proof (induction n rule: digits.induct)
  case (1 n)
  have d: "\<And>a. a < 10 \<Longrightarrow> ''0123456789'' ! a \<in> set ''0123456789''"
    by (rule nth_mem) simp
  show ?case
  proof (cases "n < 10")
    case True
    then show ?thesis using d[of n] by (subst digits.simps) simp
  next
    case False
    then have "set (digits (n div 10)) \<subseteq> set ''0123456789''" using 1 by simp
    moreover have "''0123456789'' ! (n mod 10) \<in> set ''0123456789''" by (rule d) simp
    ultimately show ?thesis using False by (subst digits.simps) simp
  qed
qed

lemma QString_number_hd: "QString_number i \<noteq> [] \<and> hd (QString_number i) \<in> set ''-0123456789''"
proof (cases "i < 0")
  case True
  then show ?thesis by (simp add: QString_number_def)
next
  case False
  have "hd (digits (nat i)) \<in> set (digits (nat i))" using digits_nonempty by (rule hd_in_set)
  then have "hd (digits (nat i)) \<in> set ''0123456789''" using digits_chars by blast
  then show ?thesis using False digits_nonempty by (simp add: QString_number_def)
qed

lemma chunkFileName_not_scene: "chunkFileName i ext \<noteq> ''preview.mlt''"
proof
  assume "chunkFileName i ext = ''preview.mlt''"
  then have "hd (QString_number i @ ''.'' @ ext) = CHR ''p''" by (simp add: chunkFileName_def)
  then have "hd (QString_number i) = CHR ''p''" using QString_number_hd[of i] by simp
  then show False using QString_number_hd[of i] by auto
qed

section \<open>What the pruning does\<close>

text \<open>
  The pruning retains the five greatest names in the order of strings, and so at most
  five directories.
\<close>

lemma removeUndoDir_keys: "fst ` set (removeUndoDir dir ds) = fst ` set ds - {dir}"
proof (cases "dir \<in> fst ` set ds")
  case True
  have "set (map fst (AList.delete dir ds)) = set (map fst ds) - {dir}"
    unfolding delete_keys by simp
  then show ?thesis using True by (simp add: removeUndoDir_def)
next
  case False
  then show ?thesis by (simp add: removeUndoDir_def)
qed

lemma removeUndoDir_distinct: "distinct (map fst ds) \<Longrightarrow> distinct (map fst (removeUndoDir dir ds))"
  by (simp add: removeUndoDir_def distinct_delete)

lemma cleanupLoop_keys:
  "fst ` set (cleanupLoop dirs ds) = fst ` set ds - set (take (length dirs - 5) dirs)"
proof (induction dirs arbitrary: ds)
  case Nil
  show ?case by simp
next
  case (Cons dir dirs)
  show ?case
  proof (cases "length (dir # dirs) > 5")
    case True
    then have t: "take (length (dir # dirs) - 5) (dir # dirs) = dir # take (length dirs - 5) dirs"
      by (simp add: take_Cons' Suc_diff_le)
    show ?thesis
      using True unfolding t by (auto simp: Cons.IH removeUndoDir_keys)
  next
    case False
    then show ?thesis by simp
  qed
qed

lemma cleanupLoop_distinct:
  "distinct (map fst ds) \<Longrightarrow> distinct (map fst (cleanupLoop dirs ds))"
  by (induction dirs arbitrary: ds) (simp_all add: removeUndoDir_distinct)

lemma doCleanupOldPreviews_keeps_greatest:
  assumes "distinct (entryList (undoDirs s))"
  shows "set (entryList (undoDirs (doCleanupOldPreviews s)))
           = set (drop (length (undoDirs s) - 5) (sort (entryList (undoDirs s))))"
    and "length (undoDirs (doCleanupOldPreviews s)) \<le> 5"
proof -
  let ?names = "entryList (undoDirs s)"
  let ?sorted = "sort ?names"
  let ?k = "length (undoDirs s) - 5"
  let ?r = "undoDirs (doCleanupOldPreviews s)"
  have len: "length ?sorted = length (undoDirs s)" by (simp add: entryList_def)
  have dist: "distinct ?sorted" using assms by simp
  have keys: "fst ` set ?r = set ?names - set (take ?k ?sorted)"
    by (simp add: doCleanupOldPreviews_def Let_def cleanupLoop_keys entryList_def)
  have split: "set ?sorted = set (take ?k ?sorted) \<union> set (drop ?k ?sorted)"
    by (metis append_take_drop_id set_append)
  have disj: "set (take ?k ?sorted) \<inter> set (drop ?k ?sorted) = {}"
    using dist by (metis append_take_drop_id distinct_append)
  have same: "set ?names = set ?sorted" by simp
  have sets: "\<And>K N A B :: string set. K = N - A \<Longrightarrow> N = A \<union> B \<Longrightarrow> A \<inter> B = {} \<Longrightarrow> K = B"
    by blast
  have k2: "fst ` set ?r = set (drop ?k ?sorted)"
    by (rule sets[OF keys _ disj]) (simp only: same split[symmetric])
  then show g1: "set (entryList ?r) = set (drop ?k ?sorted)" by (simp add: entryList_def)
  have dr: "distinct (map fst ?r)"
    using assms by (simp add: doCleanupOldPreviews_def Let_def cleanupLoop_distinct entryList_def)
  have "length ?r = length (map fst ?r)" by simp
  also have "\<dots> = card (set (map fst ?r))" using distinct_card[OF dr] by simp
  also have "\<dots> = card (set (drop ?k ?sorted))" using k2 by simp
  also have "\<dots> \<le> length (drop ?k ?sorted)" by (rule card_length)
  also have "\<dots> \<le> 5" using len by simp
  finally show "length ?r \<le> 5" .
qed

section \<open>What the archive loop does\<close>

lemma renameToUndo_absent:
  "map_of (cacheFiles s) f = None \<Longrightarrow> renameToUndo f dir s = (s, False)"
  by (simp add: renameToUndo_def)

lemma renameToUndo_present:
  assumes "map_of (cacheFiles s) f = Some c" and "map_of (undoDirs s) dir = Some d"
    and "map_of d f = None"
  shows "renameToUndo f dir s =
           (s\<lparr>cacheFiles := AList.delete f (cacheFiles s),
              undoDirs := AList.update dir (AList.update f c d) (undoDirs s)\<rparr>, True)"
  using assms by (simp add: renameToUndo_def)

lemma archiveLoop_none:
  "\<forall>i \<in> set chunks. map_of (cacheFiles s) (chunkFileName i (m_extension s)) = None \<Longrightarrow>
   archiveLoop dir chunks s found = (s, found)"
  by (induction chunks arbitrary: found) (simp_all add: renameToUndo_absent)

lemma archiveLoop_spec:
  assumes "map_of (undoDirs s) dir = Some d"
    and "dom (map_of d) \<inter> dom (map_of (cacheFiles s)) = {}"
    and "archiveLoop dir chunks s found = (s', found')"
  shows "map_of (cacheFiles s') =
           (\<lambda>f. if f \<in> (\<lambda>i. chunkFileName i (m_extension s)) ` set chunks then None
                else map_of (cacheFiles s) f)
       \<and> (\<exists>d'. map_of (undoDirs s') dir = Some d' \<and>
             map_of d' = (\<lambda>f. if f \<in> (\<lambda>i. chunkFileName i (m_extension s)) ` set chunks
                                  \<and> map_of (cacheFiles s) f \<noteq> None
                               then map_of (cacheFiles s) f else map_of d f))
       \<and> (\<forall>n. n \<noteq> dir \<longrightarrow> map_of (undoDirs s') n = map_of (undoDirs s) n)
       \<and> found' = (found \<or> (\<exists>i \<in> set chunks. map_of (cacheFiles s) (chunkFileName i (m_extension s)) \<noteq> None))
       \<and> s'\<lparr>cacheFiles := cacheFiles s, undoDirs := undoDirs s\<rparr> = s"
  using assms
proof (induction chunks arbitrary: s d found)
  case Nil
  then show ?case by simp
next
  case (Cons i chunks)
  let ?f = "chunkFileName i (m_extension s)"
  show ?case
  proof (cases "map_of (cacheFiles s) ?f")
    case None
    then have step: "archiveLoop dir chunks s found = (s', found')"
      using Cons.prems(3) by (simp add: renameToUndo_absent)
    from Cons.IH[OF Cons.prems(1) Cons.prems(2) step] None
    show ?thesis by (auto simp: fun_eq_iff)
  next
    case (Some c)
    then have dnone: "map_of d ?f = None"
      using Cons.prems(2) by (auto simp: dom_def)
    let ?s1 = "s\<lparr>cacheFiles := AList.delete ?f (cacheFiles s),
              undoDirs := AList.update dir (AList.update ?f c d) (undoDirs s)\<rparr>"
    have step: "archiveLoop dir chunks ?s1 True = (s', found')"
      using Cons.prems(3) renameToUndo_present[OF Some Cons.prems(1) dnone] by simp
    have p1: "map_of (undoDirs ?s1) dir = Some (AList.update ?f c d)"
      by (simp add: update_conv')
    have p2: "dom (map_of (AList.update ?f c d)) \<inter> dom (map_of (cacheFiles ?s1)) = {}"
      using Cons.prems(2) by (auto simp: update_conv' delete_conv' dom_def split: if_splits)
    note ih = Cons.IH[OF p1 p2 step]
    have ih1: "map_of (cacheFiles s') =
           (\<lambda>g. if g \<in> (\<lambda>i. chunkFileName i (m_extension s)) ` set chunks then None
                else ((map_of (cacheFiles s))(?f := None)) g)"
      using ih[THEN conjunct1] by (simp add: delete_conv' cong: if_cong)
    obtain d' where ih2: "map_of (undoDirs s') dir = Some d'"
      and ih3: "map_of d' = (\<lambda>g. if g \<in> (\<lambda>i. chunkFileName i (m_extension s)) ` set chunks
                                  \<and> ((map_of (cacheFiles s))(?f := None)) g \<noteq> None
                               then ((map_of (cacheFiles s))(?f := None)) g
                               else ((map_of d)(?f \<mapsto> c)) g)"
      using ih[THEN conjunct2, THEN conjunct1] by (auto simp: delete_conv' update_conv' cong: if_cong)
    have ih4: "\<forall>n. n \<noteq> dir \<longrightarrow> map_of (undoDirs s') n = map_of (undoDirs s) n"
      using ih[THEN conjunct2, THEN conjunct2, THEN conjunct1] by (simp add: update_conv')
    have ih5: "found'" using ih[THEN conjunct2, THEN conjunct2, THEN conjunct2, THEN conjunct1] by simp
    have ih6: "s'\<lparr>cacheFiles := cacheFiles ?s1, undoDirs := undoDirs ?s1\<rparr> = ?s1"
      using ih by blast
    have g1: "map_of (cacheFiles s') =
           (\<lambda>g. if g \<in> (\<lambda>i. chunkFileName i (m_extension s)) ` set (i # chunks) then None
                else map_of (cacheFiles s) g)"
      unfolding ih1 by (auto simp: fun_eq_iff)
    have g2: "map_of d' = (\<lambda>g. if g \<in> (\<lambda>i. chunkFileName i (m_extension s)) ` set (i # chunks)
                                  \<and> map_of (cacheFiles s) g \<noteq> None
                               then map_of (cacheFiles s) g else map_of d g)"
      unfolding ih3 using Some by (auto simp: fun_eq_iff)
    have g5: "found' = (found \<or> (\<exists>j \<in> set (i # chunks). map_of (cacheFiles s) (chunkFileName j (m_extension s)) \<noteq> None))"
      using ih5 Some by auto
    have "s'\<lparr>cacheFiles := cacheFiles ?s1, undoDirs := undoDirs ?s1\<rparr>\<lparr>cacheFiles := cacheFiles s, undoDirs := undoDirs s\<rparr>
            = ?s1\<lparr>cacheFiles := cacheFiles s, undoDirs := undoDirs s\<rparr>"
      using ih6 by simp
    then have g6: "s'\<lparr>cacheFiles := cacheFiles s, undoDirs := undoDirs s\<rparr> = s"
      by simp
    show ?thesis
      using g1 ih2 g2 ih4 g5 g6 by blast
  qed
qed

section \<open>What the restore loop does\<close>

lemma copyFromUndo_cases:
  assumes "map_of (undoDirs s) dir = Some d"
  shows "copyFromUndo dir f s =
     (case map_of d f of
        None \<Rightarrow> (s, False)
      | Some c \<Rightarrow> if map_of (cacheFiles s) f \<noteq> None then (s, False)
                  else (s\<lparr>cacheFiles := AList.update f c (cacheFiles s)\<rparr>, True))"
  using assms by (simp add: copyFromUndo_def)

lemma restoreLoop_move:
  assumes "map_of (undoDirs s) dir = Some d"
    and "restoreLoop lastUndo True dir chunks s acc = (s', found)"
  shows "map_of (cacheFiles s') =
           (\<lambda>g. if g \<in> (\<lambda>i. chunkFileName i (m_extension s)) ` set chunks
                     \<and> (\<not> lastUndo \<or> map_of (cacheFiles s) g = None)
                 then map_of d g else map_of (cacheFiles s) g)
       \<and> set found = set acc \<union>
            {i \<in> set chunks. map_of d (chunkFileName i (m_extension s)) \<noteq> None
               \<and> (\<not> lastUndo \<or> map_of (cacheFiles s) (chunkFileName i (m_extension s)) = None)}
       \<and> s'\<lparr>cacheFiles := cacheFiles s\<rparr> = s"
  using assms
proof (induction chunks arbitrary: s acc)
  case Nil
  then show ?case by simp
next
  case (Cons i chunks)
  let ?f = "chunkFileName i (m_extension s)"
  let ?N = "(\<lambda>i. chunkFileName i (m_extension s)) ` set chunks"
  let ?s1 = "if \<not> lastUndo then removeCacheFile ?f s else s"
  have u1: "map_of (undoDirs ?s1) dir = Some d"
    using Cons.prems(1) by (simp add: removeCacheFile_def)
  have e1: "m_extension ?s1 = m_extension s" by (simp add: removeCacheFile_def)
  have c1: "map_of (cacheFiles ?s1) = (if lastUndo then map_of (cacheFiles s) else (map_of (cacheFiles s))(?f := None))"
    by (simp add: removeCacheFile_def delete_conv')
  have f1: "?s1\<lparr>cacheFiles := cacheFiles s\<rparr> = s" by (simp add: removeCacheFile_def)
  obtain s2 ok where cp: "copyFromUndo dir ?f ?s1 = (s2, ok)" by fastforce
  have step: "restoreLoop lastUndo True dir chunks s2 (if ok then acc @ [i] else acc) = (s', found)"
    using Cons.prems(2) cp by (simp add: Let_def)
  have ok_iff: "ok \<longleftrightarrow> map_of d ?f \<noteq> None \<and> (\<not> lastUndo \<or> map_of (cacheFiles s) ?f = None)"
    using cp c1 by (auto simp: copyFromUndo_cases[OF u1] split: option.splits if_splits)
  have c2: "map_of (cacheFiles s2) =
      (if ok then (map_of (cacheFiles s))(?f := map_of d ?f)
       else map_of (cacheFiles ?s1))"
    using cp c1 by (auto simp: copyFromUndo_cases[OF u1] update_conv' split: option.splits if_splits)
  have u2: "map_of (undoDirs s2) dir = Some d"
    using cp u1 by (auto simp: copyFromUndo_cases[OF u1] split: option.splits if_splits)
  have e2: "m_extension s2 = m_extension s"
    using cp e1 by (auto simp: copyFromUndo_cases[OF u1] split: option.splits if_splits)
  have f2: "s2\<lparr>cacheFiles := cacheFiles s\<rparr> = s"
    using cp f1 by (auto simp: copyFromUndo_cases[OF u1] split: option.splits if_splits)
  note ih = Cons.IH[OF u2 step, unfolded e2]
  have ih1: "map_of (cacheFiles s') =
           (\<lambda>g. if g \<in> ?N \<and> (\<not> lastUndo \<or> map_of (cacheFiles s2) g = None)
                 then map_of d g else map_of (cacheFiles s2) g)"
    using ih[THEN conjunct1] .
  have ih2: "set found = set (if ok then acc @ [i] else acc) \<union>
            {j \<in> set chunks. map_of d (chunkFileName j (m_extension s)) \<noteq> None
               \<and> (\<not> lastUndo \<or> map_of (cacheFiles s2) (chunkFileName j (m_extension s)) = None)}"
    using ih[THEN conjunct2, THEN conjunct1] .
  have ih3: "s'\<lparr>cacheFiles := cacheFiles s2\<rparr> = s2"
    using ih[THEN conjunct2, THEN conjunct2] .
  have g1: "map_of (cacheFiles s') =
           (\<lambda>g. if g \<in> (\<lambda>i. chunkFileName i (m_extension s)) ` set (i # chunks)
                     \<and> (\<not> lastUndo \<or> map_of (cacheFiles s) g = None)
                 then map_of d g else map_of (cacheFiles s) g)"
    unfolding ih1 c2 c1 using ok_iff by (auto simp: fun_eq_iff)
  have g2: "set found = set acc \<union>
            {j \<in> set (i # chunks). map_of d (chunkFileName j (m_extension s)) \<noteq> None
               \<and> (\<not> lastUndo \<or> map_of (cacheFiles s) (chunkFileName j (m_extension s)) = None)}"
    unfolding ih2 c2 c1 using ok_iff by (auto split: if_splits)
  have "s'\<lparr>cacheFiles := cacheFiles s2\<rparr>\<lparr>cacheFiles := cacheFiles s\<rparr> = s2\<lparr>cacheFiles := cacheFiles s\<rparr>"
    using ih3 by simp
  then have g3: "s'\<lparr>cacheFiles := cacheFiles s\<rparr> = s" using f2 by simp
  show ?case using g1 g2 g3 by blast
qed

lemma restoreLoop_nomove:
  assumes "restoreLoop lastUndo False dir chunks s acc = (s', found)"
  shows "map_of (cacheFiles s') =
           (\<lambda>g. if g \<in> (\<lambda>i. chunkFileName i (m_extension s)) ` set chunks \<and> \<not> lastUndo
                 then None else map_of (cacheFiles s) g)
       \<and> found = acc
       \<and> s'\<lparr>cacheFiles := cacheFiles s\<rparr> = s"
  using assms
proof (induction chunks arbitrary: s)
  case Nil
  then show ?case by simp
next
  case (Cons i chunks)
  let ?f = "chunkFileName i (m_extension s)"
  let ?s1 = "if \<not> lastUndo then removeCacheFile ?f s else s"
  have e1: "m_extension ?s1 = m_extension s" by (simp add: removeCacheFile_def)
  have c1: "map_of (cacheFiles ?s1) = (if lastUndo then map_of (cacheFiles s) else (map_of (cacheFiles s))(?f := None))"
    by (simp add: removeCacheFile_def delete_conv')
  have f1: "?s1\<lparr>cacheFiles := cacheFiles s\<rparr> = s" by (simp add: removeCacheFile_def)
  have step: "restoreLoop lastUndo False dir chunks ?s1 acc = (s', found)"
    using Cons.prems by (simp add: Let_def)
  note ih = Cons.IH[OF step, unfolded e1]
  have g1: "map_of (cacheFiles s') =
           (\<lambda>g. if g \<in> (\<lambda>i. chunkFileName i (m_extension s)) ` set (i # chunks) \<and> \<not> lastUndo
                 then None else map_of (cacheFiles s) g)"
    unfolding ih[THEN conjunct1] c1 by (auto simp: fun_eq_iff)
  have "s'\<lparr>cacheFiles := cacheFiles ?s1\<rparr>\<lparr>cacheFiles := cacheFiles s\<rparr> = ?s1\<lparr>cacheFiles := cacheFiles s\<rparr>"
    using ih[THEN conjunct2, THEN conjunct2] by simp
  then have g3: "s'\<lparr>cacheFiles := cacheFiles s\<rparr> = s" using f1 by simp
  show ?case using g1 ih[THEN conjunct2, THEN conjunct1] g3 by blast
qed

section \<open>Archive and restore as operations\<close>

lemma archive_spec:
  assumes "\<not> undoExists (QString_number ix) s"
    and "archive chunks ix s = (s', found)"
  shows "(found \<longleftrightarrow> (\<exists>i \<in> set chunks. map_of (cacheFiles s) (chunkFileName i (m_extension s)) \<noteq> None))
       \<and> map_of (cacheFiles s') =
           (\<lambda>g. if g \<in> (\<lambda>i. chunkFileName i (m_extension s)) ` set chunks then None
                else map_of (cacheFiles s) g)
       \<and> (found \<longrightarrow> (\<exists>d'. map_of (undoDirs s') (QString_number ix) = Some d' \<and>
             map_of d' = (\<lambda>g. if g \<in> (\<lambda>i. chunkFileName i (m_extension s)) ` set chunks
                               then map_of (cacheFiles s) g else None)))
       \<and> (\<not> found \<longrightarrow> s' = s)
       \<and> (\<forall>n. n \<noteq> QString_number ix \<longrightarrow> map_of (undoDirs s') n = map_of (undoDirs s) n)
       \<and> s'\<lparr>cacheFiles := cacheFiles s, undoDirs := undoDirs s\<rparr> = s"
proof -
  let ?D = "QString_number ix"
  let ?m = "mkdirUndo ?D s"
  have absent: "map_of (undoDirs s) ?D = None"
    using assms(1) by (simp add: undoExists_def)
  then have notkey: "?D \<notin> fst ` set (undoDirs s)"
    by (simp add: map_of_eq_None_iff)
  have m_def: "?m = s\<lparr>undoDirs := AList.update ?D [] (undoDirs s)\<rparr>"
    using assms(1) by (simp add: mkdirUndo_def)
  have m1: "map_of (undoDirs ?m) ?D = Some []" by (simp add: m_def update_conv')
  have m2: "dom (map_of ([] :: directory)) \<inter> dom (map_of (cacheFiles ?m)) = {}" by simp
  have m3: "m_extension ?m = m_extension s" "cacheFiles ?m = cacheFiles s"
    by (simp_all add: m_def)
  obtain t fp where loop: "archiveLoop ?D chunks ?m False = (t, fp)" by fastforce
  note sp = archiveLoop_spec[OF m1 m2 loop, unfolded m3]
  have fp_iff: "fp \<longleftrightarrow> (\<exists>i \<in> set chunks. map_of (cacheFiles s) (chunkFileName i (m_extension s)) \<noteq> None)"
    using sp by simp
  show ?thesis
  proof (cases fp)
    case True
    then have eq: "s' = t" "found" using assms(2) loop by (simp_all add: archive_def)
    have c: "map_of (cacheFiles t) =
           (\<lambda>g. if g \<in> (\<lambda>i. chunkFileName i (m_extension s)) ` set chunks then None
                else map_of (cacheFiles s) g)"
      using sp[THEN conjunct1] .
    obtain d' where d1: "map_of (undoDirs t) ?D = Some d'"
      and d2: "map_of d' = (\<lambda>f. if f \<in> (\<lambda>i. chunkFileName i (m_extension s)) ` set chunks
                                  \<and> map_of (cacheFiles s) f \<noteq> None
                               then map_of (cacheFiles s) f else map_of [] f)"
      using sp[THEN conjunct2, THEN conjunct1] by blast
    have d3: "map_of d' = (\<lambda>g. if g \<in> (\<lambda>i. chunkFileName i (m_extension s)) ` set chunks
                               then map_of (cacheFiles s) g else None)"
      unfolding d2 by (auto simp: fun_eq_iff)
    have o: "\<forall>n. n \<noteq> ?D \<longrightarrow> map_of (undoDirs t) n = map_of (undoDirs s) n"
      using sp[THEN conjunct2, THEN conjunct2, THEN conjunct1] by (simp add: m_def update_conv')
    have "t\<lparr>cacheFiles := cacheFiles ?m, undoDirs := undoDirs ?m\<rparr> = ?m"
      using sp[THEN conjunct2, THEN conjunct2, THEN conjunct2, THEN conjunct2] by (simp add: m3)
    then have "t\<lparr>cacheFiles := cacheFiles ?m, undoDirs := undoDirs ?m\<rparr>\<lparr>cacheFiles := cacheFiles s, undoDirs := undoDirs s\<rparr>
             = ?m\<lparr>cacheFiles := cacheFiles s, undoDirs := undoDirs s\<rparr>" by simp
    then have fr: "t\<lparr>cacheFiles := cacheFiles s, undoDirs := undoDirs s\<rparr> = s"
      by (simp add: m_def)
    show ?thesis using eq fp_iff True c d1 d3 o fr by blast
  next
    case False
    then have none: "\<forall>i \<in> set chunks. map_of (cacheFiles ?m) (chunkFileName i (m_extension ?m)) = None"
      using fp_iff by (simp add: m3)
    have t_eq: "t = ?m" using archiveLoop_none[OF none, of ?D False] loop by simp
    have "rmdirUndo ?D ?m = s"
      using notkey by (simp add: rmdirUndo_def m_def update_conv' delete_update_same)
    then have eq: "s' = s" "\<not> found" using assms(2) loop False t_eq by (simp_all add: archive_def)
    show ?thesis using eq fp_iff False by (auto simp: fun_eq_iff)
  qed
qed

lemma archive_restore_roundtrip:
  assumes "\<not> undoExists (QString_number ix) s"
    and a: "archive chunks ix s = (s1, found)"
    and r: "restore lastUndo chunks ix s1 = (s2, foundChunks)"
  shows "set foundChunks = {i \<in> set chunks. map_of (cacheFiles s) (chunkFileName i (m_extension s)) \<noteq> None}
       \<and> map_of (cacheFiles s2) = map_of (cacheFiles s)
       \<and> undoDirs s2 = undoDirs s1"
proof -
  let ?D = "QString_number ix"
  note sp = archive_spec[OF assms(1) a]
  have fr1: "s1\<lparr>cacheFiles := cacheFiles s, undoDirs := undoDirs s\<rparr> = s"
    using sp by blast
  have "m_extension (s1\<lparr>cacheFiles := cacheFiles s, undoDirs := undoDirs s\<rparr>) = m_extension s"
    using fr1 by simp
  then have e1: "m_extension s1 = m_extension s" by simp
  have c1: "map_of (cacheFiles s1) =
           (\<lambda>g. if g \<in> (\<lambda>i. chunkFileName i (m_extension s)) ` set chunks then None
                else map_of (cacheFiles s) g)"
    using sp by blast
  show ?thesis
  proof (cases found)
    case True
    then obtain d' where d1: "map_of (undoDirs s1) ?D = Some d'"
      and d2: "map_of d' = (\<lambda>g. if g \<in> (\<lambda>i. chunkFileName i (m_extension s)) ` set chunks
                               then map_of (cacheFiles s) g else None)"
      using sp by blast
    have loop: "restoreLoop lastUndo True ?D chunks s1 [] = (s2, foundChunks)"
      using r d1 by (simp add: restore_def undoExists_def)
    note rs = restoreLoop_move[OF d1 loop, unfolded e1]
    have g1: "map_of (cacheFiles s2) = map_of (cacheFiles s)"
      unfolding rs[THEN conjunct1] c1 d2 by (auto simp: fun_eq_iff)
    have g2: "set foundChunks = {i \<in> set chunks. map_of (cacheFiles s) (chunkFileName i (m_extension s)) \<noteq> None}"
      unfolding rs[THEN conjunct2, THEN conjunct1] c1 d2 by auto
    have "undoDirs (s2\<lparr>cacheFiles := cacheFiles s1\<rparr>) = undoDirs s1"
      using rs[THEN conjunct2, THEN conjunct2] by simp
    then have g3: "undoDirs s2 = undoDirs s1" by simp
    show ?thesis using g1 g2 g3 by blast
  next
    case False
    then have s1: "s1 = s" using sp by blast
    have none: "\<forall>i \<in> set chunks. map_of (cacheFiles s) (chunkFileName i (m_extension s)) = None"
      using sp False by blast
    have loop: "restoreLoop lastUndo False ?D chunks s [] = (s2, foundChunks)"
      using r assms(1) s1 by (simp add: restore_def)
    note rs = restoreLoop_nomove[OF loop]
    have g1: "map_of (cacheFiles s2) = map_of (cacheFiles s)"
      unfolding rs[THEN conjunct1] using none by (auto simp: fun_eq_iff)
    have g2: "set foundChunks = {i \<in> set chunks. map_of (cacheFiles s) (chunkFileName i (m_extension s)) \<noteq> None}"
      using rs none by auto
    have "undoDirs (s2\<lparr>cacheFiles := cacheFiles s\<rparr>) = undoDirs s"
      using rs[THEN conjunct2, THEN conjunct2] by simp
    then have g3: "undoDirs s2 = undoDirs s1" using s1 by simp
    show ?thesis using g1 g2 g3 by blast
  qed
qed

section \<open>What the render loop does\<close>

lemma renderLoop_cached:
  assumes "map_of (cacheFiles s) (chunkFileName i (m_extension s)) \<noteq> None"
  shows "renderLoop world chunkSize scene ct (i # chunks) s =
         renderLoop world chunkSize scene (Suc ct) chunks
           (emit (PreviewRender i (chunkPath s i) (progressAt (Suc ct) chunks)) s)"
  using assms by (simp add: Let_def chunkPath_def progressAt_def)

lemma renderLoop_not_started:
  assumes "map_of (cacheFiles s) (chunkFileName i (m_extension s)) = None"
    and "\<not> waitForStarted (world (Suc ct))"
  shows "renderLoop world chunkSize scene ct (i # chunks) s =
         renderLoop world chunkSize scene (Suc ct) chunks
           (s\<lparr>launched := launched s @ [renderArgs chunkSize (absoluteFilePath (m_cacheDir s) scene) i s]\<rparr>)"
  using assms by (simp add: Let_def)

lemma renderLoop_normal:
  assumes "map_of (cacheFiles s) (chunkFileName i (m_extension s)) = None"
    and "waitForStarted (world (Suc ct))"
    and "exitStatus (world (Suc ct)) = NormalExit"
  shows "renderLoop world chunkSize scene ct (i # chunks) s =
         renderLoop world chunkSize scene (Suc ct) chunks
           (emit (PreviewRender i (chunkPath s i) (progressAt (Suc ct) chunks))
              (afterProcess (world (Suc ct))
                 (renderArgs chunkSize (absoluteFilePath (m_cacheDir s) scene) i s)
                 (chunkFileName i (m_extension s)) s))"
  using assms by (simp add: Let_def chunkPath_def progressAt_def afterProcess_def cong: option.case_cong)

lemma renderLoop_crash:
  assumes "map_of (cacheFiles s) (chunkFileName i (m_extension s)) = None"
    and "waitForStarted (world (Suc ct))"
    and "exitStatus (world (Suc ct)) \<noteq> NormalExit"
  shows "renderLoop world chunkSize scene ct (i # chunks) s =
         (removeCacheFile (chunkFileName i (m_extension s))
            (emit (if m_abortPreview s \<or> abortRequested (world (Suc ct))
                   then PreviewRender 0 [] 1000 else PreviewRender i [] (- 1))
               (afterProcess (world (Suc ct))
                  (renderArgs chunkSize (absoluteFilePath (m_cacheDir s) scene) i s)
                  (chunkFileName i (m_extension s)) s)),
          Suc ct)"
  using assms by (simp add: Let_def afterProcess_def emit_def removeCacheFile_def cong: option.case_cong)

lemma renderLoop_cases [case_names cached not_started normal crash]:
  assumes "map_of (cacheFiles s) (chunkFileName i (m_extension s)) \<noteq> None \<Longrightarrow> P"
    and "map_of (cacheFiles s) (chunkFileName i (m_extension s)) = None \<Longrightarrow>
         \<not> waitForStarted (world (Suc ct)) \<Longrightarrow> P"
    and "map_of (cacheFiles s) (chunkFileName i (m_extension s)) = None \<Longrightarrow>
         waitForStarted (world (Suc ct)) \<Longrightarrow> exitStatus (world (Suc ct)) = NormalExit \<Longrightarrow> P"
    and "map_of (cacheFiles s) (chunkFileName i (m_extension s)) = None \<Longrightarrow>
         waitForStarted (world (Suc ct)) \<Longrightarrow> exitStatus (world (Suc ct)) \<noteq> NormalExit \<Longrightarrow> P"
  shows P
  using assms by blast

lemma step_fields [simp]:
  "m_extension (emit e s) = m_extension s"
  "m_cacheDir (emit e s) = m_cacheDir s"
  "m_consumerParams (emit e s) = m_consumerParams s"
  "cacheFiles (emit e s) = cacheFiles s"
  "launched (emit e s) = launched s"
  "emitted (emit e s) = emitted s @ [e]"
  "m_abortPreview (emit e s) = m_abortPreview s"
  "m_extension (afterProcess p a f s) = m_extension s"
  "m_cacheDir (afterProcess p a f s) = m_cacheDir s"
  "m_consumerParams (afterProcess p a f s) = m_consumerParams s"
  "launched (afterProcess p a f s) = launched s @ [a]"
  "emitted (afterProcess p a f s) = emitted s"
  "m_extension (removeCacheFile f s) = m_extension s"
  "m_cacheDir (removeCacheFile f s) = m_cacheDir s"
  "m_consumerParams (removeCacheFile f s) = m_consumerParams s"
  "launched (removeCacheFile f s) = launched s"
  "emitted (removeCacheFile f s) = emitted s"
  "map_of (cacheFiles (removeCacheFile f s)) = (map_of (cacheFiles s))(f := None)"
  "map_of (cacheFiles (afterProcess p a f s)) =
     (case written p of None \<Rightarrow> map_of (cacheFiles s) | Some c \<Rightarrow> (map_of (cacheFiles s))(f \<mapsto> c))"
  by (simp_all add: emit_def afterProcess_def removeCacheFile_def delete_conv' update_conv' split: option.splits)

lemma renderArgs_cong:
  "m_cacheDir s' = m_cacheDir s \<Longrightarrow> m_extension s' = m_extension s \<Longrightarrow>
   m_consumerParams s' = m_consumerParams s \<Longrightarrow>
   renderArgs chunkSize scene i s' = renderArgs chunkSize scene i s"
  by (simp add: renderArgs_def)

lemma renderLoop_frame:
  "m_extension (fst (renderLoop world chunkSize scene ct chunks s)) = m_extension s
   \<and> m_cacheDir (fst (renderLoop world chunkSize scene ct chunks s)) = m_cacheDir s
   \<and> m_consumerParams (fst (renderLoop world chunkSize scene ct chunks s)) = m_consumerParams s"
proof (induction chunks arbitrary: ct s)
  case Nil
  show ?case by simp
next
  case (Cons i chunks)
  show ?case
  proof (cases rule: renderLoop_cases[where s=s and i=i and world=world and ct=ct])
    case cached
    show ?thesis unfolding renderLoop_cached[OF cached] using Cons.IH by simp
  next
    case not_started
    show ?thesis unfolding renderLoop_not_started[where world=world and ct=ct, OF not_started] using Cons.IH by simp
  next
    case normal
    show ?thesis unfolding renderLoop_normal[where world=world and ct=ct, OF normal] using Cons.IH by simp
  next
    case crash
    show ?thesis unfolding renderLoop_crash[where world=world and ct=ct, OF crash] by simp
  qed
qed

lemma renderLoop_keeps_files:
  "map_of (cacheFiles s) f = Some c \<Longrightarrow>
   map_of (cacheFiles (fst (renderLoop world chunkSize scene ct chunks s))) f = Some c"
proof (induction chunks arbitrary: ct s)
  case Nil
  then show ?case by simp
next
  case (Cons i chunks)
  show ?case
  proof (cases rule: renderLoop_cases[where s=s and i=i and world=world and ct=ct])
    case cached
    show ?thesis unfolding renderLoop_cached[OF cached] using Cons by simp
  next
    case not_started
    show ?thesis unfolding renderLoop_not_started[where world=world and ct=ct, OF not_started] using Cons by simp
  next
    case normal
    have "f \<noteq> chunkFileName i (m_extension s)" using normal(1) Cons.prems by auto
    then have "map_of (cacheFiles (afterProcess (world (Suc ct))
                 (renderArgs chunkSize (absoluteFilePath (m_cacheDir s) scene) i s)
                 (chunkFileName i (m_extension s)) s)) f = Some c"
      using Cons.prems by (simp split: option.splits)
    then show ?thesis unfolding renderLoop_normal[where world=world and ct=ct, OF normal] using Cons.IH by simp
  next
    case crash
    have "f \<noteq> chunkFileName i (m_extension s)" using crash(1) Cons.prems by auto
    then show ?thesis unfolding renderLoop_crash[where world=world and ct=ct, OF crash] using Cons.prems
      by (simp split: option.splits)
  qed
qed

lemma renderLoop_bounds:
  "ct \<le> snd (renderLoop world chunkSize scene ct q s)
   \<and> snd (renderLoop world chunkSize scene ct q s) \<le> ct + length q
   \<and> (q \<noteq> [] \<longrightarrow> ct < snd (renderLoop world chunkSize scene ct q s))"
proof (induction q arbitrary: ct s)
  case Nil
  show ?case by simp
next
  case (Cons i q)
  have step: ?case
    if "renderLoop world chunkSize scene ct (i # q) s = renderLoop world chunkSize scene (Suc ct) q s1" for s1
    unfolding that using Cons.IH[of "Suc ct" s1] by simp
  show ?case
  proof (cases rule: renderLoop_cases[where s=s and i=i and world=world and ct=ct])
    case cached
    show ?thesis by (rule step[OF renderLoop_cached[OF cached]])
  next
    case not_started
    show ?thesis by (rule step[OF renderLoop_not_started[where world=world and ct=ct, OF not_started]])
  next
    case normal
    show ?thesis by (rule step[OF renderLoop_normal[where world=world and ct=ct, OF normal]])
  next
    case crash
    show ?thesis unfolding renderLoop_crash[where world=world and ct=ct, OF crash] by simp
  qed
qed

lemma renderLoop_events:
  assumes started: "\<forall>k. waitForStarted (world k)"
  shows "\<exists>evs. emitted (fst (renderLoop world chunkSize scene ct q s)) = emitted s @ evs
     \<and> length evs = snd (renderLoop world chunkSize scene ct q s) - ct"
proof (induction q arbitrary: ct s)
  case Nil
  show ?case by simp
next
  case (Cons i q)
  have continue: "?case"
    if eq: "renderLoop world chunkSize scene ct (i # q) s = renderLoop world chunkSize scene (Suc ct) q s1"
      and em: "emitted s1 = emitted s @ [e]"
    for s1 e
  proof -
    let ?n = "snd (renderLoop world chunkSize scene (Suc ct) q s1)"
    obtain evs where e1: "emitted (fst (renderLoop world chunkSize scene (Suc ct) q s1)) = emitted s1 @ evs"
      and e2: "length evs = ?n - Suc ct"
      using Cons.IH[of "Suc ct" s1] by blast
    have e3: "Suc ct \<le> ?n"
      using renderLoop_bounds[of "Suc ct" world chunkSize scene q s1] by blast
    have g1: "emitted (fst (renderLoop world chunkSize scene ct (i # q) s)) = emitted s @ (e # evs)"
      unfolding eq e1 em by simp
    have g2: "length (e # evs) = ?n - ct" using e2 e3 by simp
    show ?thesis
      unfolding eq using g1[unfolded eq] g2 by blast
  qed
  show ?case
  proof (cases rule: renderLoop_cases[where s=s and i=i and world=world and ct=ct])
    case cached
    show ?thesis
      by (rule continue[OF renderLoop_cached[OF cached]]) simp
  next
    case not_started
    then show ?thesis using started by simp
  next
    case normal
    show ?thesis
      by (rule continue[OF renderLoop_normal[where world=world and ct=ct, OF normal]]) simp
  next
    case crash
    show ?thesis
      unfolding renderLoop_crash[where world=world and ct=ct, OF crash]
      by (rule exI[of _ "[if m_abortPreview s \<or> abortRequested (world (Suc ct))
                   then PreviewRender 0 [] 1000 else PreviewRender i [] (- 1)]"]) simp
  qed
qed

text \<open>
  The event log is written and never read: a run from a state with another log takes
  the same chunks and ends in the same state, the log apart. So a run that goes
  beyond its first \<open>m\<close> chunks is the run on these \<open>m\<close> chunks, followed by the run
  on the rest.
\<close>

lemma renderLoop_emitted:
  "snd (renderLoop world chunkSize scene ct q (s\<lparr>emitted := E\<rparr>)) = snd (renderLoop world chunkSize scene ct q s)
   \<and> (fst (renderLoop world chunkSize scene ct q (s\<lparr>emitted := E\<rparr>)))\<lparr>emitted := X\<rparr>
       = (fst (renderLoop world chunkSize scene ct q s))\<lparr>emitted := X\<rparr>"
proof (induction q arbitrary: ct s E)
  case Nil
  show ?case by simp
next
  case (Cons i q)
  let ?t = "s\<lparr>emitted := E\<rparr>"
  let ?a = "renderArgs chunkSize (absoluteFilePath (m_cacheDir s) scene) i s"
  have a: "renderArgs chunkSize (absoluteFilePath (m_cacheDir ?t) scene) i ?t = ?a"
    by (simp add: renderArgs_def)
  have p: "chunkPath ?t i = chunkPath s i" by (simp add: chunkPath_def)
  have x: "m_extension ?t = m_extension s" "m_abortPreview ?t = m_abortPreview s" by simp_all
  have e: "emit ev (u\<lparr>emitted := E\<rparr>) = (emit ev u)\<lparr>emitted := E @ [ev]\<rparr>" for ev u
    by (simp add: emit_def)
  have ap: "afterProcess pr ar f ?t = (afterProcess pr ar f s)\<lparr>emitted := E\<rparr>" for pr ar f
    by (cases "written pr") (simp_all add: afterProcess_def)
  show ?case
  proof (cases rule: renderLoop_cases[where s=s and i=i and world=world and ct=ct])
    case cached
    then have c: "map_of (cacheFiles ?t) (chunkFileName i (m_extension ?t)) \<noteq> None" by simp
    show ?thesis
      unfolding renderLoop_cached[OF c] renderLoop_cached[OF cached] p e by (rule Cons.IH)
  next
    case not_started
    then have c: "map_of (cacheFiles ?t) (chunkFileName i (m_extension ?t)) = None" by simp
    have l: "?t\<lparr>launched := launched ?t @ [?a]\<rparr> = (s\<lparr>launched := launched s @ [?a]\<rparr>)\<lparr>emitted := E\<rparr>"
      by simp
    show ?thesis
      unfolding renderLoop_not_started[where world=world and ct=ct, OF c not_started(2)]
        renderLoop_not_started[where world=world and ct=ct, OF not_started] a l by (rule Cons.IH)
  next
    case normal
    then have c: "map_of (cacheFiles ?t) (chunkFileName i (m_extension ?t)) = None" by simp
    show ?thesis
      unfolding renderLoop_normal[where world=world and ct=ct, OF c normal(2,3)]
        renderLoop_normal[where world=world and ct=ct, OF normal] a p x ap e by (rule Cons.IH)
  next
    case crash
    then have c: "map_of (cacheFiles ?t) (chunkFileName i (m_extension ?t)) = None" by simp
    show ?thesis
      unfolding renderLoop_crash[where world=world and ct=ct, OF c crash(2,3)]
        renderLoop_crash[where world=world and ct=ct, OF crash] a x ap
      by (simp add: emit_def removeCacheFile_def)
  qed
qed

lemma renderLoop_prefix:
  assumes "ct + m < snd (renderLoop world chunkSize scene ct q s)"
  shows "snd (renderLoop world chunkSize scene ct (take m q) s) = ct + m
     \<and> (\<exists>E. renderLoop world chunkSize scene ct q s
            = renderLoop world chunkSize scene (ct + m) (drop m q)
                ((fst (renderLoop world chunkSize scene ct (take m q) s))\<lparr>emitted := E\<rparr>))"
  using assms
proof (induction m arbitrary: ct q s)
  case 0
  have "s\<lparr>emitted := emitted s\<rparr> = s" by simp
  then have "renderLoop world chunkSize scene ct q s
      = renderLoop world chunkSize scene (ct + 0) (drop 0 q)
          ((fst (renderLoop world chunkSize scene ct (take 0 q) s))\<lparr>emitted := emitted s\<rparr>)"
    by simp
  then show ?case by (intro conjI exI[of _ "emitted s"]) simp_all
next
  case (Suc m)
  have "q \<noteq> []"
  proof
    assume "q = []"
    then show False using Suc.prems by simp
  qed
  then obtain i q' where q: "q = i # q'" by (cases q) auto
  have step: ?case
    if eq: "renderLoop world chunkSize scene ct (i # q') s = renderLoop world chunkSize scene (Suc ct) q' s1"
      and eq': "renderLoop world chunkSize scene ct (i # take m q') s
                  = renderLoop world chunkSize scene (Suc ct) (take m q') (s1\<lparr>emitted := E'\<rparr>)"
    for s1 E'
  proof -
    have lt: "Suc ct + m < snd (renderLoop world chunkSize scene (Suc ct) q' s1)"
      using Suc.prems unfolding q eq by simp
    note ih = Suc.IH[OF lt]
    obtain E where n: "snd (renderLoop world chunkSize scene (Suc ct) (take m q') s1) = Suc ct + m"
      and r: "renderLoop world chunkSize scene (Suc ct) q' s1
            = renderLoop world chunkSize scene (Suc ct + m) (drop m q')
                ((fst (renderLoop world chunkSize scene (Suc ct) (take m q') s1))\<lparr>emitted := E\<rparr>)"
      using ih by blast
    note em = renderLoop_emitted[where world=world and chunkSize=chunkSize and scene=scene and ct="Suc ct"
        and q="take m q'" and s=s1 and E=E' and X=E]
    have g1: "snd (renderLoop world chunkSize scene ct (take (Suc m) q) s) = ct + Suc m"
      unfolding q using eq' em n by simp
    have g2: "renderLoop world chunkSize scene ct q s
            = renderLoop world chunkSize scene (ct + Suc m) (drop (Suc m) q)
                ((fst (renderLoop world chunkSize scene ct (take (Suc m) q) s))\<lparr>emitted := E\<rparr>)"
      unfolding q using eq eq' em r by simp
    show ?thesis using g1 g2 by blast
  qed
  have e: "emit ev u = (emit ev' u)\<lparr>emitted := emitted u @ [ev]\<rparr>" for ev ev' u
    by (simp add: emit_def)
  show ?case
  proof (cases rule: renderLoop_cases[where s=s and i=i and world=world and ct=ct])
    case cached
    show ?thesis
      by (rule step[OF renderLoop_cached[OF cached]])
        (subst renderLoop_cached[OF cached], subst e, rule refl)
  next
    case not_started
    let ?s1 = "s\<lparr>launched := launched s @ [renderArgs chunkSize (absoluteFilePath (m_cacheDir s) scene) i s]\<rparr>"
    have "?s1\<lparr>emitted := emitted ?s1\<rparr> = ?s1" by simp
    then have "renderLoop world chunkSize scene ct (i # take m q') s
                 = renderLoop world chunkSize scene (Suc ct) (take m q') (?s1\<lparr>emitted := emitted ?s1\<rparr>)"
      by (simp only: renderLoop_not_started[where world=world and ct=ct, OF not_started])
    then show ?thesis
      by (rule step[OF renderLoop_not_started[where world=world and ct=ct, OF not_started]])
  next
    case normal
    show ?thesis
      by (rule step[OF renderLoop_normal[where world=world and ct=ct, OF normal]])
        (subst renderLoop_normal[where world=world and ct=ct, OF normal], subst e, rule refl)
  next
    case crash
    have "snd (renderLoop world chunkSize scene ct q s) = Suc ct"
      unfolding q renderLoop_crash[where world=world and ct=ct, OF crash] by simp
    then show ?thesis using Suc.prems by simp
  qed
qed

lemma absoluteFilePath_nonempty [simp]: "absoluteFilePath d f \<noteq> []"
  by (simp add: absoluteFilePath_def)

lemma renderLoop_launch_order:
  "\<exists>js. subseq js q
     \<and> launched (fst (renderLoop world chunkSize scene ct q s))
         = launched s @ map (\<lambda>i. renderArgs chunkSize (absoluteFilePath (m_cacheDir s) scene) i s) js"
proof (induction q arbitrary: ct s)
  case Nil
  show ?case by simp
next
  case (Cons i q)
  let ?args = "\<lambda>s i. renderArgs chunkSize (absoluteFilePath (m_cacheDir s) scene) i s"
  have same: "?case"
    if eq: "renderLoop world chunkSize scene ct (i # q) s = renderLoop world chunkSize scene (Suc ct) q s1"
      and fr: "m_cacheDir s1 = m_cacheDir s" "m_extension s1 = m_extension s"
        "m_consumerParams s1 = m_consumerParams s"
      and la: "launched s1 = launched s @ pre" and pre: "pre = [] \<or> pre = [?args s i]"
    for s1 pre
  proof -
    obtain js where j1: "subseq js q"
      and j2: "launched (fst (renderLoop world chunkSize scene (Suc ct) q s1)) = launched s1 @ map (?args s1) js"
      using Cons.IH[of "Suc ct" s1] by blast
    have a: "map (?args s1) js = map (?args s) js"
      using fr by (simp add: renderArgs_def)
    from pre show ?thesis
    proof
      assume "pre = []"
      then have "launched (fst (renderLoop world chunkSize scene ct (i # q) s)) = launched s @ map (?args s) js"
        unfolding eq j2 a la by simp
      moreover have "subseq js (i # q)" using j1 by (rule list_emb_Cons)
      ultimately show ?thesis by blast
    next
      assume "pre = [?args s i]"
      then have "launched (fst (renderLoop world chunkSize scene ct (i # q) s)) = launched s @ map (?args s) (i # js)"
        unfolding eq j2 a la by simp
      moreover have "subseq (i # js) (i # q)" using j1 by simp
      ultimately show ?thesis by blast
    qed
  qed
  show ?case
  proof (cases rule: renderLoop_cases[where s=s and i=i and world=world and ct=ct])
    case cached
    show ?thesis
      by (rule same[OF renderLoop_cached[OF cached], of "[]"]) simp_all
  next
    case not_started
    show ?thesis
      by (rule same[OF renderLoop_not_started[where world=world and ct=ct, OF not_started], of "[?args s i]"]) simp_all
  next
    case normal
    show ?thesis
      by (rule same[OF renderLoop_normal[where world=world and ct=ct, OF normal], of "[?args s i]"]) simp_all
  next
    case crash
    have "launched (fst (renderLoop world chunkSize scene ct (i # q) s)) = launched s @ map (?args s) [i]"
      unfolding renderLoop_crash[where world=world and ct=ct, OF crash] by simp
    moreover have "subseq [i] (i # q)" by simp
    ultimately show ?thesis by blast
  qed
qed

lemma renderLoop_event_order:
  "\<exists>evs. emitted (fst (renderLoop world chunkSize scene ct q s)) = emitted s @ evs
     \<and> subseq (map eventChunk (filter (\<lambda>e. e \<noteq> PreviewRender 0 [] 1000) evs)) q"
proof (induction q arbitrary: ct s)
  case Nil
  show ?case by simp
next
  case (Cons i q)
  have same: "?case"
    if eq: "renderLoop world chunkSize scene ct (i # q) s = renderLoop world chunkSize scene (Suc ct) q s1"
      and em: "emitted s1 = emitted s @ pre"
      and pre: "pre = [] \<or> (\<exists>g. pre = [PreviewRender i (chunkPath s i) g])"
    for s1 pre
  proof -
    obtain evs where e1: "emitted (fst (renderLoop world chunkSize scene (Suc ct) q s1)) = emitted s1 @ evs"
      and e2: "subseq (map eventChunk (filter (\<lambda>e. e \<noteq> PreviewRender 0 [] 1000) evs)) q"
      using Cons.IH[of "Suc ct" s1] by blast
    have g1: "emitted (fst (renderLoop world chunkSize scene ct (i # q) s)) = emitted s @ (pre @ evs)"
      unfolding eq e1 em by simp
    have g2: "subseq (map eventChunk (filter (\<lambda>e. e \<noteq> PreviewRender 0 [] 1000) (pre @ evs))) (i # q)"
      using pre e2 by (auto simp: chunkPath_def)
    show ?thesis using g1 g2 by blast
  qed
  show ?case
  proof (cases rule: renderLoop_cases[where s=s and i=i and world=world and ct=ct])
    case cached
    show ?thesis
      by (rule same[OF renderLoop_cached[OF cached], of "[PreviewRender i (chunkPath s i) (progressAt (Suc ct) q)]"]) simp_all
  next
    case not_started
    show ?thesis
      by (rule same[OF renderLoop_not_started[where world=world and ct=ct, OF not_started], of "[]"]) simp_all
  next
    case normal
    show ?thesis
      by (rule same[OF renderLoop_normal[where world=world and ct=ct, OF normal], of "[PreviewRender i (chunkPath s i) (progressAt (Suc ct) q)]"]) simp_all
  next
    case crash
    show ?thesis
      unfolding renderLoop_crash[where world=world and ct=ct, OF crash]
      by (rule exI[of _ "[if m_abortPreview s \<or> abortRequested (world (Suc ct))
                   then PreviewRender 0 [] 1000 else PreviewRender i [] (- 1)]"]) simp
  qed
qed

lemma doPreviewRender_fields:
  "emitted (doPreviewRender world chunkSize scene chunks s)
     = emitted (fst (renderLoop world chunkSize scene 0 (sort chunks) (emit (PreviewRender 0 [] 0) s)))"
  "launched (doPreviewRender world chunkSize scene chunks s)
     = launched (fst (renderLoop world chunkSize scene 0 (sort chunks) (emit (PreviewRender 0 [] 0) s)))"
  "\<not> m_abortPreview (doPreviewRender world chunkSize scene chunks s)"
  by (simp_all add: doPreviewRender_def renderFinish_def)

lemma progress_thirds: "progressOf 1 2 = 333" "progressOf 2 1 = 666"
  by code_simp+

section \<open>Waiting for the runner\<close>

text \<open>
  The loop writes the cache files, the events, the launches and the abort flag, and
  nothing else; and it does not read the timer.
\<close>

lemma renderLoop_untouched:
  "(fst (renderLoop world chunkSize scene ct q s))\<lparr>cacheFiles := a, emitted := e, launched := l, m_abortPreview := f\<rparr>
     = s\<lparr>cacheFiles := a, emitted := e, launched := l, m_abortPreview := f\<rparr>"
proof (induction q arbitrary: ct s)
  case Nil
  show ?case by simp
next
  case (Cons i q)
  show ?case
  proof (cases rule: renderLoop_cases[where s=s and i=i and world=world and ct=ct])
    case cached
    show ?thesis unfolding renderLoop_cached[OF cached] Cons.IH by (simp add: emit_def)
  next
    case not_started
    show ?thesis unfolding renderLoop_not_started[where world=world and ct=ct, OF not_started] Cons.IH by simp
  next
    case normal
    show ?thesis unfolding renderLoop_normal[where world=world and ct=ct, OF normal] Cons.IH
      by (simp add: emit_def afterProcess_def)
  next
    case crash
    show ?thesis unfolding renderLoop_crash[where world=world and ct=ct, OF crash]
      by (simp add: emit_def afterProcess_def removeCacheFile_def)
  qed
qed

lemma renderLoop_timer:
  "renderLoop world chunkSize scene ct q (s\<lparr>previewTimerActive := b\<rparr>)
     = ((fst (renderLoop world chunkSize scene ct q s))\<lparr>previewTimerActive := b\<rparr>,
        snd (renderLoop world chunkSize scene ct q s))"
proof (induction q arbitrary: ct s)
  case Nil
  show ?case by simp
next
  case (Cons i q)
  let ?t = "s\<lparr>previewTimerActive := b\<rparr>"
  let ?a = "renderArgs chunkSize (absoluteFilePath (m_cacheDir s) scene) i s"
  have a: "renderArgs chunkSize (absoluteFilePath (m_cacheDir ?t) scene) i ?t = ?a"
    by (simp add: renderArgs_def)
  have p: "chunkPath ?t i = chunkPath s i" by (simp add: chunkPath_def)
  have e: "emit ev (u\<lparr>previewTimerActive := b\<rparr>) = (emit ev u)\<lparr>previewTimerActive := b\<rparr>" for ev u
    by (simp add: emit_def)
  have ap: "afterProcess pr ar f ?t = (afterProcess pr ar f s)\<lparr>previewTimerActive := b\<rparr>" for pr ar f
    by (cases "written pr") (simp_all add: afterProcess_def)
  have rm: "removeCacheFile f (u\<lparr>previewTimerActive := b\<rparr>) = (removeCacheFile f u)\<lparr>previewTimerActive := b\<rparr>" for f u
    by (simp add: removeCacheFile_def)
  show ?case
  proof (cases rule: renderLoop_cases[where s=s and i=i and world=world and ct=ct])
    case cached
    then have c: "map_of (cacheFiles ?t) (chunkFileName i (m_extension ?t)) \<noteq> None" by simp
    show ?thesis
      unfolding renderLoop_cached[OF c] renderLoop_cached[OF cached] p e Cons.IH ..
  next
    case not_started
    then have c: "map_of (cacheFiles ?t) (chunkFileName i (m_extension ?t)) = None" by simp
    have l: "?t\<lparr>launched := launched ?t @ [?a]\<rparr> = (s\<lparr>launched := launched s @ [?a]\<rparr>)\<lparr>previewTimerActive := b\<rparr>"
      by simp
    show ?thesis
      unfolding renderLoop_not_started[where world=world and ct=ct, OF c not_started(2)]
        renderLoop_not_started[where world=world and ct=ct, OF not_started] a l Cons.IH ..
  next
    case normal
    then have c: "map_of (cacheFiles ?t) (chunkFileName i (m_extension ?t)) = None" by simp
    have x: "m_extension ?t = m_extension s" by simp
    show ?thesis
      unfolding renderLoop_normal[where world=world and ct=ct, OF c normal(2,3)]
        renderLoop_normal[where world=world and ct=ct, OF normal] a p x ap e Cons.IH ..
  next
    case crash
    then have c: "map_of (cacheFiles ?t) (chunkFileName i (m_extension ?t)) = None" by simp
    have x: "m_extension ?t = m_extension s" "m_abortPreview ?t = m_abortPreview s" by simp_all
    show ?thesis
      unfolding renderLoop_crash[where world=world and ct=ct, OF c crash(2,3)]
        renderLoop_crash[where world=world and ct=ct, OF crash] a x ap e rm by simp
  qed
qed

text \<open>
  So \<^verbatim>\<open>abortRendering()\<close> leaves the archive, the extension and the path of the cache
  directory as they are, and whether the timer was stopped before makes no difference
  to what it does.
\<close>

lemma waitForFinished_untouched:
  "(waitForFinished r s)\<lparr>cacheFiles := a, emitted := e, launched := l, m_abortPreview := f\<rparr>
     = s\<lparr>cacheFiles := a, emitted := e, launched := l, m_abortPreview := f\<rparr>"
proof (cases "position r")
  case (NotStarted chunks)
  have "(fst (renderLoop (processes r) (timelinechunks r) (sceneList r) 0 (sort chunks) (emit (PreviewRender 0 [] 0) s)))
          \<lparr>cacheFiles := a, emitted := e, launched := l, m_abortPreview := f\<rparr>
        = s\<lparr>cacheFiles := a, emitted := e, launched := l, m_abortPreview := f\<rparr>"
    unfolding renderLoop_untouched by (simp add: emit_def)
  then show ?thesis
    using NotStarted by (simp add: waitForFinished_def doPreviewRender_def renderFinish_def removeCacheFile_def)
next
  case (InLoop ct chunks)
  have "(fst (renderLoop (processes r) (timelinechunks r) (sceneList r) ct chunks s))
          \<lparr>cacheFiles := a, emitted := e, launched := l, m_abortPreview := f\<rparr>
        = s\<lparr>cacheFiles := a, emitted := e, launched := l, m_abortPreview := f\<rparr>"
    by (rule renderLoop_untouched)
  then show ?thesis
    using InLoop by (simp add: waitForFinished_def renderFinish_def removeCacheFile_def)
qed

lemma waitForFinished_timer:
  "waitForFinished r (s\<lparr>previewTimerActive := b\<rparr>) = (waitForFinished r s)\<lparr>previewTimerActive := b\<rparr>"
proof -
  have e: "emit ev (s\<lparr>previewTimerActive := b\<rparr>) = (emit ev s)\<lparr>previewTimerActive := b\<rparr>" for ev
    by (simp add: emit_def)
  show ?thesis
    by (cases "position r")
      (simp_all add: waitForFinished_def doPreviewRender_def e renderLoop_timer renderFinish_def
        removeCacheFile_def)
qed

lemma abortRendering_timer:
  "abortRendering (s\<lparr>previewTimerActive := b\<rparr>) = (abortRendering s)\<lparr>previewTimerActive := b\<rparr>"
proof (cases "previewThread s")
  case None
  then show ?thesis by (simp add: abortRendering_def)
next
  case (Some r)
  have "emit AbortPreview (s\<lparr>previewTimerActive := b, m_abortPreview := True\<rparr>)
          = (emit AbortPreview (s\<lparr>m_abortPreview := True\<rparr>))\<lparr>previewTimerActive := b\<rparr>"
    by (simp add: emit_def)
  then show ?thesis
    using Some by (simp add: abortRendering_def waitForFinished_timer)
qed

lemma abortRendering_untouched:
  "(abortRendering s)\<lparr>cacheFiles := a, emitted := e, launched := l, m_abortPreview := f, previewThread := t\<rparr>
     = s\<lparr>cacheFiles := a, emitted := e, launched := l, m_abortPreview := f, previewThread := t\<rparr>"
proof (cases "previewThread s")
  case None
  then show ?thesis by (simp add: abortRendering_def)
next
  case (Some r)
  let ?s1 = "emit AbortPreview (s\<lparr>m_abortPreview := True\<rparr>)"
  have "(waitForFinished r ?s1)\<lparr>cacheFiles := a, emitted := e, launched := l, m_abortPreview := f\<rparr>
          = ?s1\<lparr>cacheFiles := a, emitted := e, launched := l, m_abortPreview := f\<rparr>"
    by (rule waitForFinished_untouched)
  then have "((waitForFinished r ?s1)\<lparr>cacheFiles := a, emitted := e, launched := l, m_abortPreview := f\<rparr>)\<lparr>previewThread := t\<rparr>
          = (?s1\<lparr>cacheFiles := a, emitted := e, launched := l, m_abortPreview := f\<rparr>)\<lparr>previewThread := t\<rparr>"
    by simp
  then show ?thesis
    using Some by (simp add: abortRendering_def emit_def)
qed

lemma abortRendering_fields [simp]:
  "undoDirs (abortRendering s) = undoDirs s"
  "m_extension (abortRendering s) = m_extension s"
  "m_cacheDir (abortRendering s) = m_cacheDir s"
proof -
  let ?u = "\<lambda>x. x\<lparr>cacheFiles := [], emitted := [], launched := [], m_abortPreview := False, previewThread := None\<rparr>"
  have eq: "?u (abortRendering s) = ?u s" by (rule abortRendering_untouched)
  have "undoDirs (?u (abortRendering s)) = undoDirs (?u s)" unfolding eq ..
  then show "undoDirs (abortRendering s) = undoDirs s" by simp
  have "m_extension (?u (abortRendering s)) = m_extension (?u s)" unfolding eq ..
  then show "m_extension (abortRendering s) = m_extension s" by simp
  have "m_cacheDir (?u (abortRendering s)) = m_cacheDir (?u s)" unfolding eq ..
  then show "m_cacheDir (abortRendering s) = m_cacheDir s" by simp
qed

section \<open>The invalidation protocol at the top of history\<close>

lemma beforeInvalidation_fields [simp]:
  "cacheFiles (beforeInvalidation s) = cacheFiles (abortRendering s)"
  "undoDirs (beforeInvalidation s) = undoDirs s"
  "m_extension (beforeInvalidation s) = m_extension s"
  "m_cacheDir (beforeInvalidation s) = m_cacheDir s"
  "emitted (beforeInvalidation s) = emitted (abortRendering s)"
  "undoExists n (beforeInvalidation s) = undoExists n s"
  by (simp_all add: beforeInvalidation_def abortRendering_timer undoExists_def)

lemma frame_both:
  assumes "s'\<lparr>cacheFiles := a, undoDirs := b\<rparr> = s\<lparr>cacheFiles := a, undoDirs := b\<rparr>"
  shows "emitted s' = emitted s" "m_extension s' = m_extension s" "m_cacheDir s' = m_cacheDir s"
proof -
  have "emitted (s'\<lparr>cacheFiles := a, undoDirs := b\<rparr>) = emitted (s\<lparr>cacheFiles := a, undoDirs := b\<rparr>)"
    using assms by simp
  then show "emitted s' = emitted s" by simp
  have "m_extension (s'\<lparr>cacheFiles := a, undoDirs := b\<rparr>) = m_extension (s\<lparr>cacheFiles := a, undoDirs := b\<rparr>)"
    using assms by simp
  then show "m_extension s' = m_extension s" by simp
  have "m_cacheDir (s'\<lparr>cacheFiles := a, undoDirs := b\<rparr>) = m_cacheDir (s\<lparr>cacheFiles := a, undoDirs := b\<rparr>)"
    using assms by simp
  then show "m_cacheDir s' = m_cacheDir s" by simp
qed

lemma undoExists_pre [simp]:
  "undoExists n (abortRendering s) = undoExists n s"
  "undoExists n (s\<lparr>previewTimerActive := b\<rparr>) = undoExists n s"
  by (simp_all add: undoExists_def)

lemma invalidatePreviews_top:
  assumes "stackIx = stackMax" and "\<not> undoExists (QString_number (stackIx - 1)) s"
    and "archive chunks (stackIx - 1) (beforeInvalidation s) = (t, fp)"
  shows "cacheFiles (invalidatePreviews stackIx stackMax chunks s) = cacheFiles t"
    and "undoDirs (invalidatePreviews stackIx stackMax chunks s)
           = (if fp then undoDirs (doCleanupOldPreviews t) else undoDirs t)"
    and "emitted (invalidatePreviews stackIx stackMax chunks s)
           = (if fp then emitted t @ [CleanupOldPreviews] else emitted t)"
proof -
  have "invalidatePreviews stackIx stackMax chunks s =
      (let s3 = (if \<not> fp then t else doCleanupOldPreviews (emit CleanupOldPreviews t));
           s4 = s3\<lparr>docModified := True\<rparr>
       in if previewTimerActive s then s4\<lparr>previewTimerActive := True\<rparr> else s4)"
    using assms by (cases "previewTimerActive s") (simp_all add: invalidatePreviews_def beforeInvalidation_def Let_def)
  then show "cacheFiles (invalidatePreviews stackIx stackMax chunks s) = cacheFiles t"
    and "undoDirs (invalidatePreviews stackIx stackMax chunks s)
           = (if fp then undoDirs (doCleanupOldPreviews t) else undoDirs t)"
    and "emitted (invalidatePreviews stackIx stackMax chunks s)
           = (if fp then emitted t @ [CleanupOldPreviews] else emitted t)"
    by (simp_all add: Let_def doCleanupOldPreviews_def emit_def)
qed

text \<open>
  Claim C6, as the code has it. For a notification with \<open>stackIx = stackMax\<close> and
  no archive directory for \<open>stackIx - 1\<close>: every live chunk file of the dirty set
  leaves the live cache. When none of the dirty chunks has a live file, the archive
  directories are as before (the new directory is removed again) and
  \<^verbatim>\<open>cleanupOldPreviews\<close> is not emitted. Otherwise the files are in
  \<^verbatim>\<open>undo/(stackIx-1)/\<close> with their contents, the other archive directories are
  untouched, \<^verbatim>\<open>cleanupOldPreviews\<close> is emitted and the pruning runs on that state.
  The live cache and the events are those that \<^verbatim>\<open>abortRendering()\<close>, which is called
  first, has left: they are those of \<open>s\<close> itself unless a runner is active.
\<close>

theorem C6_top_of_history_archives:
  assumes "stackIx = stackMax" and "\<not> undoExists (QString_number (stackIx - 1)) s"
  shows "map_of (cacheFiles (invalidatePreviews stackIx stackMax chunks s)) =
           (\<lambda>g. if g \<in> (\<lambda>i. chunkFileName i (m_extension s)) ` set chunks then None
                else map_of (cacheFiles (abortRendering s)) g)
       \<and> (if \<forall>i \<in> set chunks. map_of (cacheFiles (abortRendering s)) (chunkFileName i (m_extension s)) = None
          then undoDirs (invalidatePreviews stackIx stackMax chunks s) = undoDirs s
             \<and> emitted (invalidatePreviews stackIx stackMax chunks s) = emitted (abortRendering s)
          else (\<exists>u d. map_of u (QString_number (stackIx - 1)) = Some d
                  \<and> map_of d = (\<lambda>g. if g \<in> (\<lambda>i. chunkFileName i (m_extension s)) ` set chunks
                                     then map_of (cacheFiles (abortRendering s)) g else None)
                  \<and> (\<forall>n. n \<noteq> QString_number (stackIx - 1) \<longrightarrow> map_of u n = map_of (undoDirs s) n)
                  \<and> undoDirs (invalidatePreviews stackIx stackMax chunks s)
                      = undoDirs (doCleanupOldPreviews (s\<lparr>undoDirs := u\<rparr>)))
             \<and> emitted (invalidatePreviews stackIx stackMax chunks s)
                 = emitted (abortRendering s) @ [CleanupOldPreviews])"
proof -
  let ?b = "beforeInvalidation s"
  let ?N = "(\<lambda>i. chunkFileName i (m_extension s)) ` set chunks"
  let ?D = "QString_number (stackIx - 1)"
  let ?r = "invalidatePreviews stackIx stackMax chunks s"
  obtain t fp where ar: "archive chunks (stackIx - 1) ?b = (t, fp)" by fastforce
  have ne: "\<not> undoExists ?D ?b" using assms(2) by simp
  note sp0 = archive_spec[OF ne ar]
  have sp1: "fp \<longleftrightarrow> (\<exists>i \<in> set chunks. map_of (cacheFiles (abortRendering s)) (chunkFileName i (m_extension s)) \<noteq> None)"
    using sp0[THEN conjunct1] by simp
  have sp2: "map_of (cacheFiles t) = (\<lambda>g. if g \<in> ?N then None else map_of (cacheFiles (abortRendering s)) g)"
    using sp0[THEN conjunct2, THEN conjunct1] by (simp cong: if_cong)
  have sp3: "fp \<longrightarrow> (\<exists>d'. map_of (undoDirs t) ?D = Some d' \<and>
             map_of d' = (\<lambda>g. if g \<in> ?N then map_of (cacheFiles (abortRendering s)) g else None))"
    using sp0[THEN conjunct2, THEN conjunct2, THEN conjunct1] by (simp cong: if_cong)
  have sp4: "\<not> fp \<longrightarrow> t = ?b"
    using sp0[THEN conjunct2, THEN conjunct2, THEN conjunct2, THEN conjunct1] .
  have sp5: "\<forall>n. n \<noteq> ?D \<longrightarrow> map_of (undoDirs t) n = map_of (undoDirs s) n"
    using sp0[THEN conjunct2, THEN conjunct2, THEN conjunct2, THEN conjunct2, THEN conjunct1] by simp
  have fr: "t\<lparr>cacheFiles := cacheFiles (abortRendering s), undoDirs := undoDirs s\<rparr> = ?b\<lparr>cacheFiles := cacheFiles (abortRendering s), undoDirs := undoDirs s\<rparr>"
    using sp0[THEN conjunct2, THEN conjunct2, THEN conjunct2, THEN conjunct2, THEN conjunct2] by simp
  note top = invalidatePreviews_top[OF assms ar]
  have em: "emitted t = emitted (abortRendering s)"
    using frame_both(1)[OF fr] by simp
  have g1: "map_of (cacheFiles ?r) = (\<lambda>g. if g \<in> ?N then None else map_of (cacheFiles (abortRendering s)) g)"
    unfolding top by (rule sp2)
  show ?thesis
  proof (cases fp)
    case True
    then have some: "\<not> (\<forall>i \<in> set chunks. map_of (cacheFiles (abortRendering s)) (chunkFileName i (m_extension s)) = None)"
      using sp1 by simp
    obtain d where d1: "map_of (undoDirs t) ?D = Some d"
      and d2: "map_of d = (\<lambda>g. if g \<in> ?N then map_of (cacheFiles (abortRendering s)) g else None)"
      using sp3 True by blast
    have u: "undoDirs ?r = undoDirs (doCleanupOldPreviews (s\<lparr>undoDirs := undoDirs t\<rparr>))"
      unfolding top using True by (simp add: doCleanupOldPreviews_def)
    have e: "emitted ?r = emitted (abortRendering s) @ [CleanupOldPreviews]"
      unfolding top using True em by simp
    have ex: "\<exists>u d. map_of u ?D = Some d
                  \<and> map_of d = (\<lambda>g. if g \<in> ?N then map_of (cacheFiles (abortRendering s)) g else None)
                  \<and> (\<forall>n. n \<noteq> ?D \<longrightarrow> map_of u n = map_of (undoDirs s) n)
                  \<and> undoDirs ?r = undoDirs (doCleanupOldPreviews (s\<lparr>undoDirs := u\<rparr>))"
      by (rule exI[of _ "undoDirs t"], rule exI[of _ d]) (intro conjI d1 d2 sp5 u)
    show ?thesis
      by (subst if_not_P[OF some]) (intro conjI g1 ex e)
  next
    case False
    then have none: "\<forall>i \<in> set chunks. map_of (cacheFiles (abortRendering s)) (chunkFileName i (m_extension s)) = None"
      using sp1 by simp
    have "t = ?b" using sp4 False by simp
    then have u: "undoDirs ?r = undoDirs s"
      and e: "emitted ?r = emitted (abortRendering s)"
      unfolding top using False by simp_all
    show ?thesis
      by (subst if_P[OF none]) (intro conjI g1 u e)
  qed
qed

section \<open>The undo scenario\<close>

lemma QString_number_3 [simp]: "QString_number 3 = ''3''" "QString_number 5 = ''5''" "QString_number 4 = ''4''"
  by (simp_all add: QString_number_def digits.simps)

text \<open>
  Claim C7. With \<open>stackIx = 3\<close>, \<open>stackMax = 5\<close>, dirty chunks 0 and 25 and an
  archive \<^verbatim>\<open>undo/3\<close> that holds the file of chunk 0 but not that of chunk 25: the
  restore step returns exactly \<open>[0]\<close>, \<^verbatim>\<open>reloadChunks\<close> is emitted with \<open>[0]\<close>,
  the live file of chunk 0 has the archived content, chunk 25 has no live file, no
  other live file changes and the archive is untouched. As for C6, the live cache
  and the events are those that \<^verbatim>\<open>abortRendering()\<close> has left.
\<close>

theorem C7_undo_scenario:
  assumes "map_of (undoDirs s) ''3'' = Some d"
    and "map_of d (chunkFileName 0 (m_extension s)) = Some c"
    and "map_of d (chunkFileName 25 (m_extension s)) = None"
  shows "snd (restore False [0, 25] 3 s) = [0]
       \<and> emitted (invalidatePreviews 3 5 [0, 25] s)
           = emitted (abortRendering s) @ [ReloadChunks (m_cacheDir s) [0] (m_extension s)]
       \<and> map_of (cacheFiles (invalidatePreviews 3 5 [0, 25] s)) (chunkFileName 0 (m_extension s)) = Some c
       \<and> map_of (cacheFiles (invalidatePreviews 3 5 [0, 25] s)) (chunkFileName 25 (m_extension s)) = None
       \<and> (\<forall>g. g \<noteq> chunkFileName 0 (m_extension s) \<and> g \<noteq> chunkFileName 25 (m_extension s) \<longrightarrow>
             map_of (cacheFiles (invalidatePreviews 3 5 [0, 25] s)) g = map_of (cacheFiles (abortRendering s)) g)
       \<and> undoDirs (invalidatePreviews 3 5 [0, 25] s) = undoDirs s"
proof -
  let ?b = "beforeInvalidation s"
  have ne: "chunkFileName 0 (m_extension s) \<noteq> chunkFileName 25 (m_extension s)" by simp
  have ub: "map_of (undoDirs ?b) ''3'' = Some d" using assms(1) by simp
  obtain t fc where r: "restore False [0, 25] 3 ?b = (t, fc)" by fastforce
  have fc: "fc = [0]"
    using r assms ne ub
    by (simp add: restore_def undoExists_def copyFromUndo_def removeCacheFile_def Let_def
        delete_conv' update_conv' split: prod.splits option.splits)
  have r0: "snd (restore False [0, 25] 3 s) = [0]"
    using assms ne
    by (simp add: restore_def undoExists_def copyFromUndo_def removeCacheFile_def Let_def
        delete_conv' update_conv' split: prod.splits option.splits)
  have loop: "restoreLoop False True ''3'' [0, 25] ?b [] = (t, fc)"
    using r ub by (simp add: restore_def undoExists_def del: restoreLoop.simps)
  note rs = restoreLoop_move[OF ub loop]
  have c: "map_of (cacheFiles t) =
           (\<lambda>g. if g \<in> (\<lambda>i. chunkFileName i (m_extension s)) ` set [0, 25] then map_of d g
                else map_of (cacheFiles (abortRendering s)) g)"
    using rs[THEN conjunct1] by (simp cong: if_cong)
  have fr: "t\<lparr>cacheFiles := cacheFiles (abortRendering s)\<rparr> = ?b\<lparr>cacheFiles := cacheFiles (abortRendering s)\<rparr>"
    using rs[THEN conjunct2, THEN conjunct2] by simp
  have "undoDirs (t\<lparr>cacheFiles := cacheFiles (abortRendering s)\<rparr>) = undoDirs (?b\<lparr>cacheFiles := cacheFiles (abortRendering s)\<rparr>)"
    "emitted (t\<lparr>cacheFiles := cacheFiles (abortRendering s)\<rparr>) = emitted (?b\<lparr>cacheFiles := cacheFiles (abortRendering s)\<rparr>)"
    "m_cacheDir (t\<lparr>cacheFiles := cacheFiles (abortRendering s)\<rparr>) = m_cacheDir (?b\<lparr>cacheFiles := cacheFiles (abortRendering s)\<rparr>)"
    "m_extension (t\<lparr>cacheFiles := cacheFiles (abortRendering s)\<rparr>) = m_extension (?b\<lparr>cacheFiles := cacheFiles (abortRendering s)\<rparr>)"
    using fr by simp_all
  then have tf: "undoDirs t = undoDirs s" "emitted t = emitted (abortRendering s)"
    "m_cacheDir t = m_cacheDir s" "m_extension t = m_extension s"
    by simp_all
  have inv: "invalidatePreviews 3 5 [0, 25] s =
      (let s3 = emit (ReloadChunks (m_cacheDir t) (sort fc) (m_extension t)) t;
           s4 = s3\<lparr>docModified := True\<rparr>
       in if previewTimerActive s then s4\<lparr>previewTimerActive := True\<rparr> else s4)"
    using r by (cases "previewTimerActive s") (simp_all add: invalidatePreviews_def beforeInvalidation_def Let_def)
  have i1: "cacheFiles (invalidatePreviews 3 5 [0, 25] s) = cacheFiles t"
    and i2: "undoDirs (invalidatePreviews 3 5 [0, 25] s) = undoDirs s"
    and i3: "emitted (invalidatePreviews 3 5 [0, 25] s) = emitted (abortRendering s) @ [ReloadChunks (m_cacheDir s) [0] (m_extension s)]"
    unfolding inv using tf fc by (simp_all add: Let_def emit_def)
  show ?thesis
    unfolding i1 i2 i3 c using r0 assms(2,3) ne by simp
qed

section \<open>The claims about the render runner\<close>

lemma subseq_sorted:
  "subseq xs ys \<Longrightarrow> sorted ys \<Longrightarrow> sorted xs"
proof (induction rule: list_emb.induct)
  case (list_emb_Nil ys)
  show ?case by simp
next
  case (list_emb_Cons xs ys y)
  then show ?case by simp
next
  case (list_emb_Cons2 x y xs ys)
  then have "set xs \<subseteq> set ys" by (auto dest: list_emb_set)
  with list_emb_Cons2 show ?case by auto
qed

text \<open>
  Claim C3, as the code has it. For a queue that is not empty and a world in which
  every launched subprocess starts: after the event that initialises the progress
  bar, exactly one \<^verbatim>\<open>previewRender\<close> event is emitted per chunk taken from the queue
  (\<open>taken\<close>, the final value of \<^verbatim>\<open>ct\<close>), and at least one. The run ends with
  the iteration of the last chunk taken (\<open>lastTaken\<close>): it is the run of the loop
  that starts at this iteration, in the state \<open>atLast\<close> with the events emitted
  before. The event of that iteration is the last event, and how the iteration ends
  fixes it. When the chunk is cached or its subprocess exits normally, it is the
  completion event of the chunk, with the output path and progress 1000, and the
  chunk is the last of the queue. When the subprocess exits
  abnormally and the abort flag is up (it was raised before, or while the subprocess
  ran), it is the abort event \<open>(0, empty, 1000)\<close>. When the subprocess exits
  abnormally and the flag is down, it is the failure event \<open>(chunk, empty, -1)\<close>.
\<close>

theorem C3_one_event_per_chunk:
  assumes "chunks \<noteq> []" and "\<forall>k. waitForStarted (world k)"
  shows "\<exists>evs. emitted (doPreviewRender world chunkSize scene chunks s)
                  = emitted s @ PreviewRender 0 [] 0 # evs
     \<and> length evs = taken world chunkSize scene chunks s
     \<and> evs \<noteq> [] \<and> length evs \<le> length chunks
     \<and> renderLoop world chunkSize scene 0 (sort chunks) (emit (PreviewRender 0 [] 0) s)
         = renderLoop world chunkSize scene (length evs - 1) (drop (length evs - 1) (sort chunks))
             ((atLast world chunkSize scene chunks s)
                \<lparr>emitted := emitted s @ PreviewRender 0 [] 0 # butlast evs\<rparr>)
     \<and> last evs =
         (if map_of (cacheFiles (atLast world chunkSize scene chunks s))
                (chunkFileName (lastTaken world chunkSize scene chunks s) (m_extension s)) \<noteq> None
             \<or> exitStatus (world (length evs)) = NormalExit
          then PreviewRender (lastTaken world chunkSize scene chunks s)
                 (chunkPath s (lastTaken world chunkSize scene chunks s)) 1000
          else if m_abortPreview (atLast world chunkSize scene chunks s)
                  \<or> abortRequested (world (length evs))
          then PreviewRender 0 [] 1000
          else PreviewRender (lastTaken world chunkSize scene chunks s) [] (- 1))
     \<and> (map_of (cacheFiles (atLast world chunkSize scene chunks s))
             (chunkFileName (lastTaken world chunkSize scene chunks s) (m_extension s)) \<noteq> None
           \<or> exitStatus (world (length evs)) = NormalExit
         \<longrightarrow> length evs = length chunks
             \<and> lastTaken world chunkSize scene chunks s = last (sort chunks))"
proof -
  let ?s0 = "emit (PreviewRender 0 [] 0) s"
  let ?q = "sort chunks"
  let ?n = "taken world chunkSize scene chunks s"
  let ?m = "?n - 1"
  let ?pre = "atLast world chunkSize scene chunks s"
  let ?i = "lastTaken world chunkSize scene chunks s"
  let ?full = "renderLoop world chunkSize scene 0 ?q ?s0"
  have n: "?n = snd ?full" by (simp add: taken_def)
  have ne: "?q \<noteq> []" using assms(1) by (metis length_sort length_0_conv)
  have b: "0 < ?n" "?n \<le> length ?q"
    using renderLoop_bounds[of 0 world chunkSize scene ?q ?s0] ne unfolding n by simp_all
  then have mn: "Suc ?m = ?n" and ml: "?m < length ?q" by simp_all
  obtain evs where e1: "emitted (fst ?full) = emitted ?s0 @ evs" and e2: "length evs = ?n"
    using renderLoop_events[OF assms(2), of chunkSize scene 0 ?q ?s0] unfolding n by auto
  have g1: "emitted (doPreviewRender world chunkSize scene chunks s) = emitted s @ PreviewRender 0 [] 0 # evs"
    unfolding doPreviewRender_fields e1 by simp
  have g3: "evs \<noteq> []" using e2 b by auto
  have g4: "length evs \<le> length chunks" using e2 b by simp
  have lt: "0 + ?m < snd ?full" using b unfolding n by simp
  obtain E where r: "?full = renderLoop world chunkSize scene (0 + ?m) (drop ?m ?q)
                (fst (renderLoop world chunkSize scene 0 (take ?m ?q) ?s0)\<lparr>emitted := E\<rparr>)"
    using renderLoop_prefix[OF lt] by blast
  let ?b = "?pre\<lparr>emitted := E\<rparr>"
  let ?rest = "drop ?n ?q"
  have d: "drop ?m ?q = ?i # ?rest"
    using Cons_nth_drop_Suc[OF ml] unfolding mn by (simp add: lastTaken_def)
  have r': "?full = renderLoop world chunkSize scene ?m (?i # ?rest) ?b"
    using r unfolding d by (simp add: atLast_def)
  have "snd ?full = Suc ?m" using mn n by simp
  then have sn: "snd (renderLoop world chunkSize scene ?m (?i # ?rest) ?b) = Suc ?m"
    unfolding r' .
  have st: "waitForStarted (world (Suc ?m))" using assms(2) by simp
  have crash_event:
    "renderLoop world chunkSize scene k (j # r) u =
       (removeCacheFile (chunkFileName j (m_extension u))
          (emit (if m_abortPreview u \<or> abortRequested (world (Suc k))
                 then PreviewRender 0 [] 1000 else PreviewRender j [] (- 1))
             (afterProcess (world (Suc k))
                (renderArgs chunkSize (absoluteFilePath (m_cacheDir u) scene) j u)
                (chunkFileName j (m_extension u)) u)),
        Suc k)"
    if "map_of (cacheFiles u) (chunkFileName j (m_extension u)) = None"
      and "waitForStarted (world (Suc k))" and "exitStatus (world (Suc k)) \<noteq> NormalExit"
    for k j r u
    using that by (simp add: Let_def afterProcess_def emit_def removeCacheFile_def cong: option.case_cong)
  have li: "emitted (fst (renderLoop world chunkSize scene ?m (?i # ?rest) ?b))
           = emitted ?b @
             [if map_of (cacheFiles ?b) (chunkFileName ?i (m_extension ?b)) \<noteq> None
                 \<or> exitStatus (world (Suc ?m)) = NormalExit
              then PreviewRender ?i (chunkPath ?b ?i) 1000
              else if m_abortPreview ?b \<or> abortRequested (world (Suc ?m))
              then PreviewRender 0 [] 1000
              else PreviewRender ?i [] (- 1)]
       \<and> (map_of (cacheFiles ?b) (chunkFileName ?i (m_extension ?b)) \<noteq> None
            \<or> exitStatus (world (Suc ?m)) = NormalExit \<longrightarrow> ?rest = [])"
  proof -
    have continue: ?thesis
      if eq: "renderLoop world chunkSize scene ?m (?i # ?rest) ?b
                = renderLoop world chunkSize scene (Suc ?m) ?rest s1"
        and em: "emitted s1 = emitted ?b @ [PreviewRender ?i (chunkPath ?b ?i) (progressAt (Suc ?m) ?rest)]"
        and c: "map_of (cacheFiles ?b) (chunkFileName ?i (m_extension ?b)) \<noteq> None
              \<or> exitStatus (world (Suc ?m)) = NormalExit"
      for s1
    proof -
      have "?rest = []"
      proof (rule ccontr)
        assume "?rest \<noteq> []"
        then have "Suc ?m < snd (renderLoop world chunkSize scene (Suc ?m) ?rest s1)"
          using renderLoop_bounds[of "Suc ?m" world chunkSize scene ?rest s1] by blast
        then show False using sn unfolding eq by simp
      qed
      then show ?thesis
        unfolding eq using em c by (simp add: progressAt_def)
    qed
    show ?thesis
    proof (cases rule: renderLoop_cases[where s="?b" and i="?i" and world=world and ct="?m"])
      case cached
      show ?thesis
        by (rule continue[OF renderLoop_cached[OF cached]]) (use cached in simp_all)
    next
      case not_started
      then show ?thesis using st by simp
    next
      case normal
      show ?thesis
        by (rule continue[OF renderLoop_normal[where world=world and ct="?m", OF normal]])
          (use normal in simp_all)
    next
      case crash
      show ?thesis
        unfolding crash_event[OF crash] using crash by simp
    qed
  qed
  have fr: "m_extension ?b = m_extension s" "m_cacheDir ?b = m_cacheDir s"
    "cacheFiles ?b = cacheFiles ?pre" "m_abortPreview ?b = m_abortPreview ?pre" "emitted ?b = E"
    using renderLoop_frame[of world chunkSize scene 0 "take ?m ?q" ?s0]
    by (simp_all add: atLast_def)
  have cp: "chunkPath ?b ?i = chunkPath s ?i"
    using fr by (simp add: chunkPath_def)
  let ?c = "map_of (cacheFiles ?pre) (chunkFileName ?i (m_extension s)) \<noteq> None
             \<or> exitStatus (world ?n) = NormalExit"
  let ?ev = "if ?c then PreviewRender ?i (chunkPath s ?i) 1000
             else if m_abortPreview ?pre \<or> abortRequested (world ?n)
             then PreviewRender 0 [] 1000
             else PreviewRender ?i [] (- 1)"
  have l1: "emitted (fst ?full) = E @ [?ev]"
    using li[THEN conjunct1] unfolding r'[symmetric] fr cp mn .
  have l2: "?c \<longrightarrow> ?rest = []"
    using li[THEN conjunct2] unfolding fr mn .
  have "emitted ?s0 @ evs = E @ [?ev]" using e1 l1 by simp
  then have "(emitted ?s0 @ butlast evs) @ [last evs] = E @ [?ev]"
    using g3 by simp
  then have E: "E = emitted ?s0 @ butlast evs" and la: "last evs = ?ev"
    by simp_all
  have g5: "?full = renderLoop world chunkSize scene (length evs - 1) (drop (length evs - 1) ?q)
             (?pre\<lparr>emitted := emitted s @ PreviewRender 0 [] 0 # butlast evs\<rparr>)"
    using r' unfolding d[symmetric] E e2 by simp
  have g6: "last evs = (if map_of (cacheFiles ?pre) (chunkFileName ?i (m_extension s)) \<noteq> None
             \<or> exitStatus (world (length evs)) = NormalExit then PreviewRender ?i (chunkPath s ?i) 1000
             else if m_abortPreview ?pre \<or> abortRequested (world (length evs))
             then PreviewRender 0 [] 1000
             else PreviewRender ?i [] (- 1))"
    unfolding e2 by (rule la)
  have g7: "map_of (cacheFiles ?pre) (chunkFileName ?i (m_extension s)) \<noteq> None
             \<or> exitStatus (world (length evs)) = NormalExit
           \<longrightarrow> length evs = length chunks \<and> ?i = last ?q"
  proof
    assume "map_of (cacheFiles ?pre) (chunkFileName ?i (m_extension s)) \<noteq> None
             \<or> exitStatus (world (length evs)) = NormalExit"
    then have "?rest = []" using l2 unfolding e2 by blast
    then have "length ?q \<le> ?n" by simp
    then have all: "?n = length ?q" using b by simp
    have "?i = last ?q"
      unfolding lastTaken_def all using ne by (simp add: last_conv_nth)
    then show "length evs = length chunks \<and> ?i = last ?q" using all e2 by simp
  qed
  show ?thesis
    by (rule exI[of _ evs]) (intro conjI g1 e2 g3 g4 g5 g6 g7)
qed

text \<open>
  Claim C4. Take the loop at any iteration: the queue is \<open>i # rest\<close>, the counter is
  \<open>ct\<close> and the state is \<open>s\<close>, which holds every chunk file rendered earlier in
  the batch. When the chunk \<open>i\<close> is not cached, its subprocess starts and exits
  abnormally and no abort was requested, the runner returns with exactly one more
  event, \<open>(i, empty, -1)\<close>, no further chunk taken and no further subprocess launched;
  the chunk \<open>i\<close> has no file in the cache, and every other file of the cache, the
  scene file apart, is as it was in \<open>s\<close>; with the scene file \<^verbatim>\<open>preview.mlt\<close> of
  the manager, that is every chunk file. And a chunk file rendered at any iteration
  (the subprocess of chunk \<open>j\<close> starts, exits normally and has written \<open>c\<close>) is
  in the cache, with that content, when the runner returns, however the rest of the
  batch ends.
\<close>

theorem C4_render_failure:
  assumes "map_of (cacheFiles s) (chunkFileName i (m_extension s)) = None"
    and "waitForStarted (world (Suc ct))"
    and "exitStatus (world (Suc ct)) \<noteq> NormalExit"
    and "\<not> m_abortPreview s" and "\<not> abortRequested (world (Suc ct))"
  shows "emitted (renderFinish scene (fst (renderLoop world chunkSize scene ct (i # rest) s)))
           = emitted s @ [PreviewRender i [] (- 1)]
       \<and> snd (renderLoop world chunkSize scene ct (i # rest) s) = Suc ct
       \<and> launched (renderFinish scene (fst (renderLoop world chunkSize scene ct (i # rest) s)))
           = launched s @ [renderArgs chunkSize (absoluteFilePath (m_cacheDir s) scene) i s]
       \<and> map_of (cacheFiles (renderFinish scene (fst (renderLoop world chunkSize scene ct (i # rest) s))))
            (chunkFileName i (m_extension s)) = None
       \<and> (\<forall>f. f \<noteq> scene \<longrightarrow>
             map_of (cacheFiles (renderFinish scene (fst (renderLoop world chunkSize scene ct (i # rest) s)))) f
               = map_of (cacheFiles s) f)
       \<and> (scene = ''preview.mlt'' \<longrightarrow>
            (\<forall>j. map_of (cacheFiles (renderFinish scene (fst (renderLoop world chunkSize scene ct (i # rest) s))))
                    (chunkFileName j (m_extension s))
                  = map_of (cacheFiles s) (chunkFileName j (m_extension s))))
       \<and> (map_of (cacheFiles t) (chunkFileName j (m_extension t)) = None
            \<and> waitForStarted (world (Suc k)) \<and> exitStatus (world (Suc k)) = NormalExit
            \<and> written (world (Suc k)) = Some c
            \<longrightarrow> map_of (cacheFiles (renderFinish ''preview.mlt''
                           (fst (renderLoop world chunkSize ''preview.mlt'' k (j # q) t))))
                  (chunkFileName j (m_extension t)) = Some c)"
proof -
  let ?r = "renderFinish scene (fst (renderLoop world chunkSize scene ct (i # rest) s))"
  have main: "emitted ?r = emitted s @ [PreviewRender i [] (- 1)]
       \<and> snd (renderLoop world chunkSize scene ct (i # rest) s) = Suc ct
       \<and> launched ?r = launched s @ [renderArgs chunkSize (absoluteFilePath (m_cacheDir s) scene) i s]
       \<and> map_of (cacheFiles ?r) (chunkFileName i (m_extension s)) = None
       \<and> (\<forall>f. f \<noteq> scene \<longrightarrow> map_of (cacheFiles ?r) f = map_of (cacheFiles s) f)"
    unfolding renderLoop_crash[where world=world and ct=ct, OF assms(1,2,3)]
    using assms(1,4,5) by (auto simp: renderFinish_def split: option.splits)
  then have "\<forall>f. f \<noteq> scene \<longrightarrow> map_of (cacheFiles ?r) f = map_of (cacheFiles s) f"
    by blast
  then have chunkFiles: "scene = ''preview.mlt'' \<longrightarrow>
      (\<forall>j. map_of (cacheFiles ?r) (chunkFileName j (m_extension s))
             = map_of (cacheFiles s) (chunkFileName j (m_extension s)))"
    using chunkFileName_not_scene by metis
  have earlier: "map_of (cacheFiles (renderFinish ''preview.mlt''
                           (fst (renderLoop world chunkSize ''preview.mlt'' k (j # q) t))))
                  (chunkFileName j (m_extension t)) = Some c"
    if absent: "map_of (cacheFiles t) (chunkFileName j (m_extension t)) = None"
      and ok: "waitForStarted (world (Suc k))" "exitStatus (world (Suc k)) = NormalExit"
      and wr: "written (world (Suc k)) = Some c"
  proof -
    let ?t1 = "emit (PreviewRender j (chunkPath t j) (progressAt (Suc k) q))
                 (afterProcess (world (Suc k))
                    (renderArgs chunkSize (absoluteFilePath (m_cacheDir t) ''preview.mlt'') j t)
                    (chunkFileName j (m_extension t)) t)"
    have step: "renderLoop world chunkSize ''preview.mlt'' k (j # q) t
                  = renderLoop world chunkSize ''preview.mlt'' (Suc k) q ?t1"
      by (rule renderLoop_normal[where world=world and ct=k, OF absent ok])
    have "map_of (cacheFiles ?t1) (chunkFileName j (m_extension t)) = Some c"
      using wr by simp
    then have "map_of (cacheFiles (fst (renderLoop world chunkSize ''preview.mlt'' (Suc k) q ?t1)))
                 (chunkFileName j (m_extension t)) = Some c"
      by (rule renderLoop_keeps_files)
    then show ?thesis
      unfolding step using chunkFileName_not_scene[of j "m_extension t"]
      by (simp add: renderFinish_def)
  qed
  from main chunkFiles earlier show ?thesis by blast
qed


lemma sort_three:
  assumes "distinct chunks" and "set chunks = {0, 25, 50 :: int}"
  shows "sort chunks = [0, 25, 50]"
proof -
  have "sort chunks = sorted_list_of_set (set chunks)"
    using assms(1) by (simp add: sorted_list_of_set_sort_remdups distinct_remdups_id)
  also have "\<dots> = [0, 25, 50]" unfolding assms(2) by simp
  finally show ?thesis .
qed

lemma step_paths [simp]:
  "chunkPath (emit e s) i = chunkPath s i"
  "chunkPath (afterProcess p a f s) i = chunkPath s i"
  "renderArgs chunkSize sc i (emit e s) = renderArgs chunkSize sc i s"
  "renderArgs chunkSize sc i (afterProcess p a f s) = renderArgs chunkSize sc i s"
  by (simp_all add: chunkPath_def renderArgs_def)

lemma three_rendered:
  assumes absent: "map_of (cacheFiles s) (chunkFileName 0 (m_extension s)) = None"
      "map_of (cacheFiles s) (chunkFileName 25 (m_extension s)) = None"
      "map_of (cacheFiles s) (chunkFileName 50 (m_extension s)) = None"
    and ok: "waitForStarted (world 1)" "exitStatus (world 1) = NormalExit"
      "waitForStarted (world 2)" "exitStatus (world 2) = NormalExit"
      "waitForStarted (world 3)" "exitStatus (world 3) = NormalExit"
  shows "emitted (fst (renderLoop world chunkSize scene 0 [0, 25, 50] s))
           = emitted s @ [PreviewRender 0 (chunkPath s 0) 333, PreviewRender 25 (chunkPath s 25) 666,
                          PreviewRender 50 (chunkPath s 50) 1000]
       \<and> launched (fst (renderLoop world chunkSize scene 0 [0, 25, 50] s))
           = launched s @ [renderArgs chunkSize (absoluteFilePath (m_cacheDir s) scene) 0 s,
                           renderArgs chunkSize (absoluteFilePath (m_cacheDir s) scene) 25 s,
                           renderArgs chunkSize (absoluteFilePath (m_cacheDir s) scene) 50 s]"
proof -
  let ?sc = "absoluteFilePath (m_cacheDir s) scene"
  let ?s1 = "emit (PreviewRender 0 (chunkPath s 0) (progressAt (Suc 0) [25, 50]))
              (afterProcess (world (Suc 0)) (renderArgs chunkSize ?sc 0 s)
                 (chunkFileName 0 (m_extension s)) s)"
  have r1: "renderLoop world chunkSize scene 0 [0, 25, 50] s = renderLoop world chunkSize scene (Suc 0) [25, 50] ?s1"
    by (rule renderLoop_normal[where world=world and ct=0]) (use absent ok in simp_all)
  have a1: "map_of (cacheFiles ?s1) (chunkFileName 25 (m_extension ?s1)) = None"
    "map_of (cacheFiles ?s1) (chunkFileName 50 (m_extension ?s1)) = None"
    using absent by (simp_all split: option.splits)
  have f1: "m_cacheDir ?s1 = m_cacheDir s" "m_extension ?s1 = m_extension s"
    "m_consumerParams ?s1 = m_consumerParams s" by simp_all
  let ?s2 = "emit (PreviewRender 25 (chunkPath ?s1 25) (progressAt (Suc (Suc 0)) [50]))
              (afterProcess (world (Suc (Suc 0))) (renderArgs chunkSize (absoluteFilePath (m_cacheDir ?s1) scene) 25 ?s1)
                 (chunkFileName 25 (m_extension ?s1)) ?s1)"
  have r2: "renderLoop world chunkSize scene (Suc 0) [25, 50] ?s1 = renderLoop world chunkSize scene (Suc (Suc 0)) [50] ?s2"
    by (rule renderLoop_normal[where world=world and ct="Suc 0"]) (use a1 ok in \<open>simp_all add: numeral_2_eq_2\<close>)
  have a2: "map_of (cacheFiles ?s2) (chunkFileName 50 (m_extension ?s2)) = None"
    using absent by (simp split: option.splits)
  let ?s3 = "emit (PreviewRender 50 (chunkPath ?s2 50) (progressAt (Suc (Suc (Suc 0))) []))
              (afterProcess (world (Suc (Suc (Suc 0)))) (renderArgs chunkSize (absoluteFilePath (m_cacheDir ?s2) scene) 50 ?s2)
                 (chunkFileName 50 (m_extension ?s2)) ?s2)"
  have r3: "renderLoop world chunkSize scene (Suc (Suc 0)) [50] ?s2 = renderLoop world chunkSize scene (Suc (Suc (Suc 0))) [] ?s3"
    by (rule renderLoop_normal[where world=world and ct="Suc (Suc 0)"]) (use a2 ok in \<open>simp_all add: numeral_3_eq_3\<close>)
  have p: "progressAt (Suc 0) [25, 50] = 333" "progressAt (Suc (Suc 0)) [50] = 666"
    "progressAt (Suc (Suc (Suc 0))) [] = 1000"
    using progress_thirds by (simp_all add: progressAt_def numeral_2_eq_2)
  have r: "fst (renderLoop world chunkSize scene 0 [0, 25, 50] s) = ?s3"
    by (simp only: r1 r2 r3 renderLoop.simps(1) fst_conv)
  have e: "emitted ?s3 = emitted s @ [PreviewRender 0 (chunkPath s 0) 333, PreviewRender 25 (chunkPath s 25) 666,
                          PreviewRender 50 (chunkPath s 50) 1000]"
    by (simp add: p)
  have l: "launched ?s3 = launched s @ [renderArgs chunkSize ?sc 0 s, renderArgs chunkSize ?sc 25 s,
                           renderArgs chunkSize ?sc 50 s]"
    by simp
  show ?thesis
    unfolding r using e l by (rule conjI)
qed

text \<open>
  Claim C8. For every queue, the subprocesses are launched for an ascending
  subsequence of the sorted queue, each for the frame range of its chunk, and the
  events other than the abort event speak of an ascending subsequence of the sorted
  queue. For the dirty set 0, 25, 50 with chunk size 25, none cached and three
  subprocesses that start and exit normally, the runner renders 0, 25 and 50 in that
  order and emits the progress values 333, 666 and 1000.
\<close>

theorem C8_ascending_order:
  "(\<exists>js evs. subseq js (sort chunks) \<and> sorted js
       \<and> launched (doPreviewRender world chunkSize scene chunks s)
           = launched s @ map (\<lambda>i. renderArgs chunkSize (absoluteFilePath (m_cacheDir s) scene) i s) js
       \<and> emitted (doPreviewRender world chunkSize scene chunks s) = emitted s @ PreviewRender 0 [] 0 # evs
       \<and> subseq (map eventChunk (filter (\<lambda>e. e \<noteq> PreviewRender 0 [] 1000) evs)) (sort chunks))
   \<and> (distinct chunks \<and> set chunks = {0, 25, 50}
       \<and> map_of (cacheFiles s) (chunkFileName 0 (m_extension s)) = None
       \<and> map_of (cacheFiles s) (chunkFileName 25 (m_extension s)) = None
       \<and> map_of (cacheFiles s) (chunkFileName 50 (m_extension s)) = None
       \<and> waitForStarted (world 1) \<and> exitStatus (world 1) = NormalExit
       \<and> waitForStarted (world 2) \<and> exitStatus (world 2) = NormalExit
       \<and> waitForStarted (world 3) \<and> exitStatus (world 3) = NormalExit
       \<longrightarrow> emitted (doPreviewRender world 25 scene chunks s)
             = emitted s @ [PreviewRender 0 [] 0, PreviewRender 0 (chunkPath s 0) 333,
                            PreviewRender 25 (chunkPath s 25) 666, PreviewRender 50 (chunkPath s 50) 1000]
         \<and> launched (doPreviewRender world 25 scene chunks s)
             = launched s @ [renderArgs 25 (absoluteFilePath (m_cacheDir s) scene) 0 s,
                             renderArgs 25 (absoluteFilePath (m_cacheDir s) scene) 25 s,
                             renderArgs 25 (absoluteFilePath (m_cacheDir s) scene) 50 s])"
proof (rule conjI)
  let ?s0 = "emit (PreviewRender 0 [] 0) s"
  obtain js where j1: "subseq js (sort chunks)"
    and j2: "launched (fst (renderLoop world chunkSize scene 0 (sort chunks) ?s0))
         = launched ?s0 @ map (\<lambda>i. renderArgs chunkSize (absoluteFilePath (m_cacheDir ?s0) scene) i ?s0) js"
    using renderLoop_launch_order[of "sort chunks" world chunkSize scene 0 ?s0] by blast
  obtain evs where e1: "emitted (fst (renderLoop world chunkSize scene 0 (sort chunks) ?s0)) = emitted ?s0 @ evs"
    and e2: "subseq (map eventChunk (filter (\<lambda>e. e \<noteq> PreviewRender 0 [] 1000) evs)) (sort chunks)"
    using renderLoop_event_order[of world chunkSize scene 0 "sort chunks" ?s0] by blast
  have g1: "sorted js" using j1 by (rule subseq_sorted) simp
  have g2: "launched (doPreviewRender world chunkSize scene chunks s)
           = launched s @ map (\<lambda>i. renderArgs chunkSize (absoluteFilePath (m_cacheDir s) scene) i s) js"
    unfolding doPreviewRender_fields j2 by simp
  have g3: "emitted (doPreviewRender world chunkSize scene chunks s) = emitted s @ PreviewRender 0 [] 0 # evs"
    unfolding doPreviewRender_fields e1 by simp
  show "\<exists>js evs. subseq js (sort chunks) \<and> sorted js
       \<and> launched (doPreviewRender world chunkSize scene chunks s)
           = launched s @ map (\<lambda>i. renderArgs chunkSize (absoluteFilePath (m_cacheDir s) scene) i s) js
       \<and> emitted (doPreviewRender world chunkSize scene chunks s) = emitted s @ PreviewRender 0 [] 0 # evs
       \<and> subseq (map eventChunk (filter (\<lambda>e. e \<noteq> PreviewRender 0 [] 1000) evs)) (sort chunks)"
    using j1 g1 g2 g3 e2 by blast
next
  show "distinct chunks \<and> set chunks = {0, 25, 50}
       \<and> map_of (cacheFiles s) (chunkFileName 0 (m_extension s)) = None
       \<and> map_of (cacheFiles s) (chunkFileName 25 (m_extension s)) = None
       \<and> map_of (cacheFiles s) (chunkFileName 50 (m_extension s)) = None
       \<and> waitForStarted (world 1) \<and> exitStatus (world 1) = NormalExit
       \<and> waitForStarted (world 2) \<and> exitStatus (world 2) = NormalExit
       \<and> waitForStarted (world 3) \<and> exitStatus (world 3) = NormalExit
       \<longrightarrow> emitted (doPreviewRender world 25 scene chunks s)
             = emitted s @ [PreviewRender 0 [] 0, PreviewRender 0 (chunkPath s 0) 333,
                            PreviewRender 25 (chunkPath s 25) 666, PreviewRender 50 (chunkPath s 50) 1000]
         \<and> launched (doPreviewRender world 25 scene chunks s)
             = launched s @ [renderArgs 25 (absoluteFilePath (m_cacheDir s) scene) 0 s,
                             renderArgs 25 (absoluteFilePath (m_cacheDir s) scene) 25 s,
                             renderArgs 25 (absoluteFilePath (m_cacheDir s) scene) 50 s]"
  proof (intro impI, elim conjE)
    let ?s0 = "emit (PreviewRender 0 [] 0) s"
    assume d: "distinct chunks" "set chunks = {0, 25, 50}"
      and a: "map_of (cacheFiles s) (chunkFileName 0 (m_extension s)) = None"
        "map_of (cacheFiles s) (chunkFileName 25 (m_extension s)) = None"
        "map_of (cacheFiles s) (chunkFileName 50 (m_extension s)) = None"
      and w: "waitForStarted (world 1)" "exitStatus (world 1) = NormalExit"
        "waitForStarted (world 2)" "exitStatus (world 2) = NormalExit"
        "waitForStarted (world 3)" "exitStatus (world 3) = NormalExit"
    have so: "sort chunks = [0, 25, 50]" using d by (rule sort_three)
    have a0: "map_of (cacheFiles ?s0) (chunkFileName 0 (m_extension ?s0)) = None"
      "map_of (cacheFiles ?s0) (chunkFileName 25 (m_extension ?s0)) = None"
      "map_of (cacheFiles ?s0) (chunkFileName 50 (m_extension ?s0)) = None"
      using a by simp_all
    note t = three_rendered[OF a0 w, of 25 scene]
    show "emitted (doPreviewRender world 25 scene chunks s)
             = emitted s @ [PreviewRender 0 [] 0, PreviewRender 0 (chunkPath s 0) 333,
                            PreviewRender 25 (chunkPath s 25) 666, PreviewRender 50 (chunkPath s 50) 1000]
         \<and> launched (doPreviewRender world 25 scene chunks s)
             = launched s @ [renderArgs 25 (absoluteFilePath (m_cacheDir s) scene) 0 s,
                             renderArgs 25 (absoluteFilePath (m_cacheDir s) scene) 25 s,
                             renderArgs 25 (absoluteFilePath (m_cacheDir s) scene) 50 s]"
      unfolding doPreviewRender_fields so using t by simp
  qed
qed

lemma demo_strings [simp]:
  "QString_number 0 = ''0''" "QString_number 25 = ''25''" "QString_number 50 = ''50''"
  "QString_number 24 = ''24''" "QString_number 49 = ''49''" "QString_number 74 = ''74''"
  by (simp_all add: QString_number_def digits.simps)

text \<open>The theorem of claim C8 on the dirty list 50, 0, 25.\<close>

theorem C8_witness:
  "distinct [50, 0, 25 :: int] \<and> set [50, 0, 25 :: int] = {0, 25, 50}
   \<and> emitted (doPreviewRender allRendered 25 ''preview.mlt'' [50, 0, 25] demoManager)
       = [PreviewRender 0 [] 0, PreviewRender 0 ''/cache/17/0.mp4'' 333,
          PreviewRender 25 ''/cache/17/25.mp4'' 666, PreviewRender 50 ''/cache/17/50.mp4'' 1000]
   \<and> launched (doPreviewRender allRendered 25 ''preview.mlt'' [50, 0, 25] demoManager)
       = [[''/cache/17/preview.mlt'', ''in=0'', ''out=24'', ''-consumer'', ''avformat:/cache/17/0.mp4'', ''an=1''],
          [''/cache/17/preview.mlt'', ''in=25'', ''out=49'', ''-consumer'', ''avformat:/cache/17/25.mp4'', ''an=1''],
          [''/cache/17/preview.mlt'', ''in=50'', ''out=74'', ''-consumer'', ''avformat:/cache/17/50.mp4'', ''an=1'']]"
proof -
  have h1: "distinct [50, 0, 25 :: int]" "set [50, 0, 25 :: int] = {0, 25, 50}" by auto
  have h2: "map_of (cacheFiles demoManager) (chunkFileName 0 (m_extension demoManager)) = None"
    "map_of (cacheFiles demoManager) (chunkFileName 25 (m_extension demoManager)) = None"
    "map_of (cacheFiles demoManager) (chunkFileName 50 (m_extension demoManager)) = None"
    by (simp_all add: demoManager_def PreviewManager_def)
  have h3: "waitForStarted (allRendered 1)" "exitStatus (allRendered 1) = NormalExit"
    "waitForStarted (allRendered 2)" "exitStatus (allRendered 2) = NormalExit"
    "waitForStarted (allRendered 3)" "exitStatus (allRendered 3) = NormalExit"
    by (simp_all add: allRendered_def rendered_def)
  from C8_ascending_order[of "[50, 0, 25]" allRendered 25 "''preview.mlt''" demoManager, THEN conjunct2]
    h1 h2 h3
  have "emitted (doPreviewRender allRendered 25 ''preview.mlt'' [50, 0, 25] demoManager)
             = emitted demoManager @ [PreviewRender 0 [] 0, PreviewRender 0 (chunkPath demoManager 0) 333,
                            PreviewRender 25 (chunkPath demoManager 25) 666, PreviewRender 50 (chunkPath demoManager 50) 1000]
         \<and> launched (doPreviewRender allRendered 25 ''preview.mlt'' [50, 0, 25] demoManager)
             = launched demoManager @ [renderArgs 25 (absoluteFilePath (m_cacheDir demoManager) ''preview.mlt'') 0 demoManager,
                             renderArgs 25 (absoluteFilePath (m_cacheDir demoManager) ''preview.mlt'') 25 demoManager,
                             renderArgs 25 (absoluteFilePath (m_cacheDir demoManager) ''preview.mlt'') 50 demoManager]"
    by blast
  then show ?thesis
    using h1
    by (simp add: demoManager_def PreviewManager_def chunkPath_def renderArgs_def
        absoluteFilePath_def chunkFileName_def)
qed

text \<open>
  Claim C3 as stated fails on a render failure: in the queue 0, 25, 50 the second
  subprocess crashes with no abort requested. Two chunks are taken, and the event
  of the last one carries progress -1, not 1000.
\<close>

theorem C3_counterexample:
  "[0, 25, 50] \<noteq> ([] :: int list)
   \<and> emitted (doPreviewRender secondCrashes 25 ''preview.mlt'' [0, 25, 50] demoManager)
       = [PreviewRender 0 [] 0, PreviewRender 0 ''/cache/17/0.mp4'' 333, PreviewRender 25 [] (- 1)]
   \<and> snd (renderLoop secondCrashes 25 ''preview.mlt'' 0 (sort [0, 25, 50]) (emit (PreviewRender 0 [] 0) demoManager)) = 2"
  by (simp add: doPreviewRender_def renderFinish_def demoManager_def PreviewManager_def
      secondCrashes_def crashed_def rendered_def emit_def removeCacheFile_def
      absoluteFilePath_def chunkFileName_def Let_def progress_thirds[unfolded One_nat_def numeral_2_eq_2]
      numeral_2_eq_2)

text \<open>
  The theorem of claim C3 on a batch whose second subprocess is killed by an abort:
  two chunks are taken, the last one is chunk 25, and the last event is the abort
  event.
\<close>

theorem C3_witness:
  "[0, 25, 50] \<noteq> ([] :: int list) \<and> (\<forall>k. waitForStarted (secondKilled k))
   \<and> taken secondKilled 25 ''preview.mlt'' [0, 25, 50] demoManager = 2
   \<and> lastTaken secondKilled 25 ''preview.mlt'' [0, 25, 50] demoManager = 25
   \<and> map_of (cacheFiles (atLast secondKilled 25 ''preview.mlt'' [0, 25, 50] demoManager)) ''25.mp4'' = None
   \<and> exitStatus (secondKilled 2) = CrashExit \<and> abortRequested (secondKilled 2)
   \<and> (\<exists>evs. emitted (doPreviewRender secondKilled 25 ''preview.mlt'' [0, 25, 50] demoManager)
               = PreviewRender 0 [] 0 # evs
        \<and> length evs = 2 \<and> last evs = PreviewRender 0 [] 1000)
   \<and> emitted (doPreviewRender secondKilled 25 ''preview.mlt'' [0, 25, 50] demoManager)
       = [PreviewRender 0 [] 0, PreviewRender 0 ''/cache/17/0.mp4'' 333, PreviewRender 0 [] 1000]"
proof -
  have h1: "[0, 25, 50] \<noteq> ([] :: int list)" by simp
  have h2: "\<forall>k. waitForStarted (secondKilled k)"
    by (simp add: secondKilled_def killed_def rendered_def)
  have t: "taken secondKilled 25 ''preview.mlt'' [0, 25, 50] demoManager = 2"
    by (simp add: taken_def demoManager_def PreviewManager_def secondKilled_def killed_def rendered_def
        emit_def removeCacheFile_def absoluteFilePath_def chunkFileName_def Let_def numeral_2_eq_2)
  have l: "lastTaken secondKilled 25 ''preview.mlt'' [0, 25, 50] demoManager = 25"
    by (simp add: lastTaken_def t)
  have a: "map_of (cacheFiles (atLast secondKilled 25 ''preview.mlt'' [0, 25, 50] demoManager)) ''25.mp4'' = None"
    "\<not> m_abortPreview (atLast secondKilled 25 ''preview.mlt'' [0, 25, 50] demoManager)"
    unfolding atLast_def t
    by (simp_all add: demoManager_def PreviewManager_def secondKilled_def killed_def rendered_def
        emit_def absoluteFilePath_def chunkFileName_def Let_def)
  have w: "exitStatus (secondKilled 2) = CrashExit" "abortRequested (secondKilled 2)"
    by (simp_all add: secondKilled_def killed_def)
  have e: "emitted (doPreviewRender secondKilled 25 ''preview.mlt'' [0, 25, 50] demoManager)
       = [PreviewRender 0 [] 0, PreviewRender 0 ''/cache/17/0.mp4'' 333, PreviewRender 0 [] 1000]"
    by (simp add: doPreviewRender_def renderFinish_def demoManager_def PreviewManager_def
        secondKilled_def killed_def rendered_def emit_def removeCacheFile_def
        absoluteFilePath_def chunkFileName_def Let_def progress_thirds[unfolded One_nat_def numeral_2_eq_2]
        numeral_2_eq_2)
  have "\<exists>evs. emitted (doPreviewRender secondKilled 25 ''preview.mlt'' [0, 25, 50] demoManager)
               = PreviewRender 0 [] 0 # evs
        \<and> length evs = 2 \<and> last evs = PreviewRender 0 [] 1000"
    using t l a w C3_one_event_per_chunk[OF h1 h2, of 25 "''preview.mlt''" demoManager]
    by (auto simp: demoManager_def PreviewManager_def chunkFileName_def)
  then show ?thesis
    using h1 h2 t l a(1) w e by simp
qed

text \<open>
  The theorem of claim C4 on the iteration for chunk 25, with the file of chunk 0
  rendered before, and on the batch 0, 25, 50 whose second subprocess crashes: the
  file of chunk 0 remains.
\<close>

theorem C4_witness:
  "map_of (cacheFiles firstRendered) (chunkFileName 25 (m_extension firstRendered)) = None
   \<and> waitForStarted (secondCrashes (Suc 1))
   \<and> exitStatus (secondCrashes (Suc 1)) \<noteq> NormalExit
   \<and> \<not> m_abortPreview firstRendered \<and> \<not> abortRequested (secondCrashes (Suc 1))
   \<and> emitted (renderFinish ''preview.mlt'' (fst (renderLoop secondCrashes 25 ''preview.mlt'' 1 [25, 50] firstRendered)))
       = [PreviewRender 25 [] (- 1)]
   \<and> map_of (cacheFiles (renderFinish ''preview.mlt'' (fst (renderLoop secondCrashes 25 ''preview.mlt'' 1 [25, 50] firstRendered))))
        ''25.mp4'' = None
   \<and> map_of (cacheFiles (renderFinish ''preview.mlt'' (fst (renderLoop secondCrashes 25 ''preview.mlt'' 1 [25, 50] firstRendered))))
        ''0.mp4'' = Some ''video''
   \<and> map_of (cacheFiles (doPreviewRender secondCrashes 25 ''preview.mlt'' [0, 25, 50] demoManager))
        ''0.mp4'' = Some ''video''"
proof -
  have h1: "map_of (cacheFiles firstRendered) (chunkFileName 25 (m_extension firstRendered)) = None"
    by (simp add: firstRendered_def demoManager_def PreviewManager_def chunkFileName_def)
  have h2: "waitForStarted (secondCrashes (Suc 1))"
    and h3: "exitStatus (secondCrashes (Suc 1)) \<noteq> NormalExit"
    and h5: "\<not> abortRequested (secondCrashes (Suc 1))"
    by (simp_all add: secondCrashes_def crashed_def)
  have h4: "\<not> m_abortPreview firstRendered"
    by (simp add: firstRendered_def demoManager_def PreviewManager_def)
  have e: "map_of (cacheFiles (emit (PreviewRender 0 [] 0) demoManager))
             (chunkFileName 0 (m_extension (emit (PreviewRender 0 [] 0) demoManager))) = None
           \<and> waitForStarted (secondCrashes (Suc 0)) \<and> exitStatus (secondCrashes (Suc 0)) = NormalExit
           \<and> written (secondCrashes (Suc 0)) = Some ''video''"
    by (simp add: demoManager_def PreviewManager_def secondCrashes_def rendered_def)
  have so: "sort [0, 25, 50 :: int] = [0, 25, 50]" by simp
  note th = C4_render_failure[where world=secondCrashes and ct=1 and scene="''preview.mlt''" and chunkSize=25
        and rest="[50]" and t="emit (PreviewRender 0 [] 0) demoManager" and j=0 and k=0 and q="[25, 50]"
        and c="''video''", OF h1 h2 h3 h4 h5]
  have batch: "map_of (cacheFiles (doPreviewRender secondCrashes 25 ''preview.mlt'' [0, 25, 50] demoManager))
        ''0.mp4'' = Some ''video''"
    using th e unfolding doPreviewRender_def so
    by (simp add: demoManager_def PreviewManager_def chunkFileName_def)
  show ?thesis
    using h1 h2 h3 h4 h5 th batch
    by (simp add: firstRendered_def demoManager_def PreviewManager_def chunkFileName_def)
qed



section \<open>The claims on concrete runs\<close>

text \<open>
  Claim C1, run on six archive directories named 5 to 10. The five highest indices
  are 6 to 10; the pruning removes the directory 10, the newest, and retains 5 to 9,
  because the names are sorted as strings.
\<close>

theorem C1_prune_drops_10_keeps_5:
  "entryList (undoDirs (doCleanupOldPreviews sixArchives)) = map QString_number [5, 6, 7, 8, 9]
   \<and> QString_number 10 \<notin> set (entryList (undoDirs (doCleanupOldPreviews sixArchives)))"
  by (simp add: sixArchives_def doCleanupOldPreviews_def entryList_def QString_number_def
      digits.simps removeUndoDir_def)

text \<open>
  How the six directories arise: with the archives 5 to 9 on disk, the eleventh edit
  archives the live file of chunk 0 under index 10 and prunes. The directory 10 is
  the one removed, and the preview that was just archived is lost.
\<close>

lemma prune_deletes_fresh_archive:
  "entryList (undoDirs (invalidatePreviews 11 11 [0] fiveArchives)) = map QString_number [5, 6, 7, 8, 9]
   \<and> cacheFiles (invalidatePreviews 11 11 [0] fiveArchives) = []
   \<and> emitted (invalidatePreviews 11 11 [0] fiveArchives) = [CleanupOldPreviews]"
  by (simp add: fiveArchives_def demoManager_def PreviewManager_def invalidatePreviews_def
      undoExists_def abortRendering_def archive_def mkdirUndo_def rmdirUndo_def renameToUndo_def
      doCleanupOldPreviews_def entryList_def removeUndoDir_def emit_def
      chunkFileName_def QString_number_def digits.simps Let_def)

text \<open>
  Whatever \<^verbatim>\<open>initialize()\<close> returns, it leaves \<^verbatim>\<open>m_initialized\<close> set; and it returns
  false for a document without a usable identifier, for a cache directory that cannot
  be entered, for a cache directory not named after the document, for an \<^verbatim>\<open>undo\<close>
  directory that cannot be created, and when \<^verbatim>\<open>loadParams()\<close> fails.
  \<^verbatim>\<open>loadParams()\<close> fails exactly when the preview extension is empty after the
  profile selection: \<^verbatim>\<open>QString::split\<close> never returns an empty list, so an empty
  parameter string alone neither triggers the selection nor fails the call.
\<close>

lemma QString_split_nonempty: "QString_split sep str \<noteq> []"
  by (induction str) (simp_all split: list.splits)

lemma loadParams_succeeds_iff:
  "fst (loadParams env doc s) \<longleftrightarrow>
     (if doc ''previewextension'' = [] then selectPreviewProfile env doc else doc) ''previewextension'' \<noteq> []"
  by (simp add: loadParams_def Let_def QString_split_nonempty)

lemma initialize_marks_initialized:
  "m_initialized (snd (snd (initialize env doc s)))"
  by (auto simp: initialize_def loadParams_def Let_def split: prod.splits bool.splits)

lemma initialize_failure_causes:
  assumes "doc ''documentid'' = [] \<or> toLong env (doc ''documentid'') = 0
         \<or> (\<not> (doc ''cachedir'' \<noteq> [] \<and> QFile_exists env (doc ''cachedir'')) \<and> \<not> cd_documentId env)
         \<or> (doc ''cachedir'' \<noteq> [] \<and> QFile_exists env (doc ''cachedir'')
              \<and> dirName env (doc ''cachedir'') \<noteq> doc ''documentid'')
         \<or> (\<not> exists_undo env \<and> \<not> mkdir_undo env)
         \<or> \<not> fst (loadParams env doc s')"
    and "s' = (if doc ''cachedir'' \<noteq> [] \<and> QFile_exists env (doc ''cachedir'')
               then s\<lparr>m_initialized := True, m_cacheDir := doc ''cachedir''\<rparr>
               else s\<lparr>m_initialized := True,
                      m_cacheDir := absoluteFilePath (writableLocation env) (doc ''documentid'')\<rparr>)"
  shows "\<not> fst (initialize env doc s)"
  using assms by (auto simp: initialize_def Let_def split: prod.splits bool.splits)

text \<open>
  Claim C2, run on a document without identifier. \<^verbatim>\<open>initialize()\<close> returns false
  and leaves \<^verbatim>\<open>m_initialized\<close> set, so the destructor passes its guard and removes
  the tree at \<^verbatim>\<open>m_undoDir\<close>, which is still the default path \<^verbatim>\<open>"."\<close>.
\<close>

theorem C2_failed_initialize_is_torn_down:
  "initialize env (doc(''documentid'' := [])) PreviewManager
     = (False, doc(''documentid'' := []), PreviewManager\<lparr>m_initialized := True\<rparr>)
   \<and> destructor cacheEmpty (snd (snd (initialize env (doc(''documentid'' := [])) PreviewManager)))
     = RemoveRecursively ''.'' # (if cacheEmpty then [RemoveRecursively ''.''] else [])"
  by (simp add: initialize_def destructor_def PreviewManager_def)

text \<open>
  Claim C6 as stated fails when no dirty chunk has a live file: at the top of history,
  with six archive directories on disk, \<^verbatim>\<open>cleanupOldPreviews\<close> is not emitted and the
  six directories stay.
\<close>

theorem C6_counterexample:
  "(9::int) = 9 \<and> \<not> undoExists (QString_number (9 - 1)) staleArchives
   \<and> CleanupOldPreviews \<notin> set (emitted (invalidatePreviews 9 9 [0] staleArchives))
   \<and> length (undoDirs (invalidatePreviews 9 9 [0] staleArchives)) = 6"
  by (simp add: staleArchives_def demoManager_def PreviewManager_def invalidatePreviews_def
      undoExists_def abortRendering_def archive_def mkdirUndo_def rmdirUndo_def renameToUndo_def
      chunkFileName_def QString_number_def digits.simps Let_def)

text \<open>The theorem of claim C6 on a cache with two live chunk files.\<close>

theorem C6_witness:
  "(1::int) = 1 \<and> \<not> undoExists (QString_number (1 - 1)) liveCache
   \<and> emitted (invalidatePreviews 1 1 [0, 25] liveCache) = [CleanupOldPreviews]
   \<and> map_of (cacheFiles (invalidatePreviews 1 1 [0, 25] liveCache)) ''0.mp4'' = None"
proof -
  have h1: "(1::int) = 1" by simp
  have h2: "\<not> undoExists (QString_number (1 - 1)) liveCache"
    by (simp add: undoExists_def liveCache_def demoManager_def PreviewManager_def)
  show ?thesis
    using h1 h2 C6_top_of_history_archives[OF h1 h2, of "[0, 25]"]
    by (simp add: liveCache_def demoManager_def PreviewManager_def abortRendering_def
        chunkFileName_def QString_number_def digits.simps)
qed

text \<open>The theorem of claim C7 on a concrete cache and archive.\<close>

theorem C7_witness:
  "map_of (undoDirs undoScenario) ''3'' = Some [(''0.mp4'', ''old0'')]
   \<and> map_of [(''0.mp4'', ''old0'')] (chunkFileName 0 (m_extension undoScenario)) = Some ''old0''
   \<and> map_of [(''0.mp4'', ''old0'')] (chunkFileName 25 (m_extension undoScenario)) = None
   \<and> emitted (invalidatePreviews 3 5 [0, 25] undoScenario) = [ReloadChunks ''/cache/17'' [0] ''mp4'']
   \<and> map_of (cacheFiles (invalidatePreviews 3 5 [0, 25] undoScenario)) ''0.mp4'' = Some ''old0''
   \<and> map_of (cacheFiles (invalidatePreviews 3 5 [0, 25] undoScenario)) ''25.mp4'' = None"
proof -
  have h1: "map_of (undoDirs undoScenario) ''3'' = Some [(''0.mp4'', ''old0'')]"
    by (simp add: undoScenario_def)
  have h2: "map_of [(''0.mp4'', ''old0'')] (chunkFileName 0 (m_extension undoScenario)) = Some ''old0''"
    by (simp add: undoScenario_def demoManager_def chunkFileName_def QString_number_def digits.simps)
  have h3: "map_of [(''0.mp4'', ''old0'')] (chunkFileName 25 (m_extension undoScenario)) = None"
    by (simp add: undoScenario_def demoManager_def chunkFileName_def QString_number_def digits.simps)
  show ?thesis
    using h1 h2 h3 C7_undo_scenario[OF h1 h2 h3]
    by (simp add: undoScenario_def demoManager_def PreviewManager_def abortRendering_def
        chunkFileName_def QString_number_def digits.simps)
qed

text \<open>
  Claim C9. Archiving a chunk list at an index that has no archive directory yet and
  restoring at the same index is a round trip: the chunks that restore returns are
  exactly the chunks of the list that had a live file, and the live cache holds the
  same files with the same contents as before, in the last-undo mode of the restore
  loop as in the other.
\<close>

theorem C9_archive_restore_roundtrip:
  assumes "\<not> undoExists (QString_number ix) s"
  shows "set (snd (restore lastUndo chunks ix (fst (archive chunks ix s))))
           = {i \<in> set chunks. map_of (cacheFiles s) (chunkFileName i (m_extension s)) \<noteq> None}
       \<and> map_of (cacheFiles (fst (restore lastUndo chunks ix (fst (archive chunks ix s)))))
           = map_of (cacheFiles s)"
proof -
  obtain s1 found where a: "archive chunks ix s = (s1, found)" by fastforce
  obtain s2 fc where r: "restore lastUndo chunks ix s1 = (s2, fc)" by fastforce
  from archive_restore_roundtrip[OF assms a r] a r show ?thesis by simp
qed

text \<open>The theorem of claim C9 on a cache with the files of chunks 0 and 25.\<close>

theorem C9_witness:
  "\<not> undoExists (QString_number 3) liveCache
   \<and> set (snd (restore False [0, 25, 50] 3 (fst (archive [0, 25, 50] 3 liveCache)))) = {0, 25}
   \<and> map_of (cacheFiles (fst (restore False [0, 25, 50] 3 (fst (archive [0, 25, 50] 3 liveCache)))))
        ''25.mp4'' = Some ''b''"
proof -
  have h: "\<not> undoExists (QString_number 3) liveCache"
    by (simp add: undoExists_def liveCache_def demoManager_def PreviewManager_def)
  have e: "{i \<in> set [0, 25, 50]. map_of (cacheFiles liveCache) (chunkFileName i (m_extension liveCache)) \<noteq> None}
        = {0, 25}"
    by (auto simp: liveCache_def demoManager_def PreviewManager_def chunkFileName_def)
  show ?thesis
    using h C9_archive_restore_roundtrip[OF h, of False "[0, 25, 50]"] unfolding e
    by (simp add: liveCache_def)
qed

text \<open>
  Claim C10. \<^verbatim>\<open>slotProcessDirtyChunks\<close> reads the first and the last element of the
  dirty list: on a list that is not empty it completes and passes both to the ruler;
  on the empty list the access has no defined result.
\<close>

theorem C10_dirty_list_nonempty:
  "(chunks \<noteq> [] \<longrightarrow>
      slotProcessDirtyChunks chunks stackIx stackMax autopreview s =
        Inr ((invalidatePreviews stackIx stackMax chunks s)
               \<lparr>previewDisplay := previewDisplay (invalidatePreviews stackIx stackMax chunks s)
                                    @ [(hd chunks, last chunks)],
                previewTimerActive := autopreview \<or> previewTimerActive (invalidatePreviews stackIx stackMax chunks s)\<rparr>))
   \<and> (chunks = [] \<longrightarrow> slotProcessDirtyChunks chunks stackIx stackMax autopreview s = Inl EmptyListAccess)"
  by (cases chunks; cases autopreview) (simp_all add: slotProcessDirtyChunks_def Let_def)

text \<open>The theorem of claim C10 on the dirty list 0, 25 and on the empty list.\<close>

theorem C10_witness:
  "[0, 25] \<noteq> ([] :: int list)
   \<and> (\<exists>s'. slotProcessDirtyChunks [0, 25] 1 1 True liveCache = Inr s' \<and> last (previewDisplay s') = (0, 25))
   \<and> slotProcessDirtyChunks [] 1 1 True liveCache = Inl EmptyListAccess"
  using C10_dirty_list_nonempty[of "[0, 25]" 1 1 True liveCache] C10_dirty_list_nonempty[of "[]" 1 1 True liveCache]
  by simp

text \<open>The theorem of claim C2 on a blank document.\<close>

theorem C2_witness:
  "fst (initialize bareEnvironment (blankDocument(''documentid'' := [])) PreviewManager) = False
   \<and> m_initialized (snd (snd (initialize bareEnvironment (blankDocument(''documentid'' := [])) PreviewManager)))
   \<and> destructor False (snd (snd (initialize bareEnvironment (blankDocument(''documentid'' := [])) PreviewManager)))
       = [RemoveRecursively ''.'']"
  using C2_failed_initialize_is_torn_down[of bareEnvironment blankDocument False]
  by (simp add: destructor_def PreviewManager_def)

end
